theory Spec2Isabelle
  imports Complex_Main "HOL-Library.Word" "HOL-Library.Log_Nat"
begin

section \<open>The search service (services/youtube.ts, variant with the buffer bound)\<close>

subsection \<open>Strings and decoded JSON values\<close>

text \<open>
  A JavaScript string is a list of UTF-16 code units; \<open>ascii\<close> is the string of an
  ASCII literal of the source.
\<close>

type_synonym jsstring = "16 word list"

definition ascii :: "string \<Rightarrow> jsstring" where
  "ascii s = map of_char s"

text \<open>
  What \<^verbatim>\<open>JSON.parse\<close> hands to \<^verbatim>\<open>parseVideoInfo\<close>: a value of type
  \<^verbatim>\<open>Record<string, any>\<close> by declaration, any JSON value at run time. A JSON number is
  a finite number; an object is its list of properties (looked up by name).
\<close>

datatype jsval =
    JUndefined
  | JNull
  | JBool bool
  | JNum real
  | JStr jsstring
  | JArr "jsval list"
  | JObj "(jsstring \<times> jsval) list"

text \<open>JavaScript truthiness, as used by \<^verbatim>\<open>||\<close>, \<^verbatim>\<open>!\<close> and \<^verbatim>\<open>if\<close>.\<close>

fun truthy :: "jsval \<Rightarrow> bool" where
  "truthy JUndefined = False"
| "truthy JNull = False"
| "truthy (JBool b) = b"
| "truthy (JNum r) = (r \<noteq> 0)"
| "truthy (JStr s) = (s \<noteq> [])"
| "truthy (JArr xs) = True"
| "truthy (JObj kvs) = True"

text \<open>\<^verbatim>\<open>a || b\<close>: the left operand when it is truthy, else the right one.\<close>

definition js_or :: "jsval \<Rightarrow> jsval \<Rightarrow> jsval" where
  "js_or a b = (if truthy a then a else b)"

text \<open>
  \<^verbatim>\<open>data.k\<close> for the property names \<^verbatim>\<open>parseVideoInfo\<close> reads (none of them is an
  index, \<^verbatim>\<open>length\<close> or a prototype member): an own property of an object, \<^verbatim>\<open>undefined\<close>
  on every other value. Reading a property of \<^verbatim>\<open>null\<close> or \<^verbatim>\<open>undefined\<close> throws; that
  case is a branch of \<open>parseVideoInfo\<close> below.
\<close>

fun field :: "jsval \<Rightarrow> jsstring \<Rightarrow> jsval" where
  "field (JObj kvs) k = (case map_of kvs k of None \<Rightarrow> JUndefined | Some v \<Rightarrow> v)"
| "field v k = JUndefined"

text \<open>Values on which \<^verbatim>\<open>.slice(a, b)\<close> can be called: strings and arrays.\<close>

fun has_slice :: "jsval \<Rightarrow> bool" where
  "has_slice (JStr s) = True"
| "has_slice (JArr xs) = True"
| "has_slice v = False"

text \<open>
  Conversion of a JSON value to a primitive, as a template literal and the arithmetic of
  \<^verbatim>\<open>formatDuration\<close> ask for it. An object is converted by the inherited
  \<^verbatim>\<open>toString\<close>; when it has an own property of that name, which is no function, neither
  that nor \<^verbatim>\<open>valueOf\<close> gives a primitive and a \<^verbatim>\<open>TypeError\<close> is thrown. An array is
  converted by \<^verbatim>\<open>join\<close>, which converts every element but \<^verbatim>\<open>null\<close>. The primitives
  convert without exception.
\<close>

fun converts :: "jsval \<Rightarrow> bool" where
  "converts (JObj kvs) = (map_of kvs (ascii ''toString'') = None)"
| "converts (JArr xs) = list_all converts xs"
| "converts v = True"

text \<open>
  The three \<^verbatim>\<open>slice\<close>s of \<^verbatim>\<open>upload_date\<close> go into a template literal: of a string they
  are strings; of an array they are the elements 0 to 7, converted by \<^verbatim>\<open>join\<close>.
\<close>

fun date_template_ok :: "jsval \<Rightarrow> bool" where
  "date_template_ok (JArr xs) = list_all converts (take 8 xs)"
| "date_template_ok v = True"

subsection \<open>parseVideoInfo\<close>

datatype js_error = TypeError

text \<open>
  The fields of \<^verbatim>\<open>VideoInfo\<close> that \<^verbatim>\<open>parseVideoInfo\<close> fills by a property read or
  by \<^verbatim>\<open>||\<close>. They hold whatever value the expression yields, whatever the interface
  declares. The values of the three fields built by string, number and date formatting
  (\<^verbatim>\<open>url\<close>, \<^verbatim>\<open>duration\<close>, \<^verbatim>\<open>publishedAt\<close>) are not part of this record; the
  exceptions of their computation are branches of \<open>parseVideoInfo\<close>.
\<close>

record VideoInfo =
  vi_id :: jsval
  title :: jsval
  channel :: jsval
  channelUrl :: jsval
  viewCount :: jsval
  likeCount :: jsval
  thumbnail :: jsval
  description :: jsval

text \<open>
  The \<^verbatim>\<open>TypeError\<close>s, in the order of evaluation: a property read on \<^verbatim>\<open>null\<close>; a truthy
  \<^verbatim>\<open>upload_date\<close> without \<^verbatim>\<open>slice\<close>, or whose slices do not convert in the template of
  the date; \<^verbatim>\<open>data.id\<close> in the template of the url, evaluated when \<^verbatim>\<open>webpage_url\<close> is
  falsy; a truthy \<^verbatim>\<open>duration\<close> in the division of \<^verbatim>\<open>formatDuration\<close>.
\<close>

definition parseVideoInfo :: "jsval \<Rightarrow> js_error + VideoInfo" where
  "parseVideoInfo data =
     (if data = JUndefined \<or> data = JNull then Inl TypeError
      else if truthy (field data (ascii ''upload_date'')) \<and>
              \<not> (has_slice (field data (ascii ''upload_date'')) \<and>
                 date_template_ok (field data (ascii ''upload_date'')))
      then Inl TypeError
      else if \<not> truthy (field data (ascii ''webpage_url'')) \<and> \<not> converts (field data (ascii ''id''))
      then Inl TypeError
      else if truthy (field data (ascii ''duration'')) \<and> \<not> converts (field data (ascii ''duration''))
      then Inl TypeError
      else Inr \<lparr>
        vi_id = field data (ascii ''id''),
        title = js_or (field data (ascii ''title'')) (JStr (ascii ''Unknown Title'')),
        channel = js_or (js_or (field data (ascii ''channel'')) (field data (ascii ''uploader'')))
                    (JStr (ascii ''Unknown Channel'')),
        channelUrl = js_or (field data (ascii ''channel_url'')) (field data (ascii ''uploader_url'')),
        viewCount = js_or (field data (ascii ''view_count'')) (JNum 0),
        likeCount = field data (ascii ''like_count''),
        thumbnail = field data (ascii ''thumbnail''),
        description = field data (ascii ''description'') \<rparr>)"

subsection \<open>The NDJSON collector inside searchYouTube\<close>

abbreviation LF :: "16 word" where "LF \<equiv> 0x0A"
abbreviation CR :: "16 word" where "CR \<equiv> 0x0D"

definition MAX_BUFFER_CHARS :: nat where
  "MAX_BUFFER_CHARS = 5000000"

text \<open>
  \<^verbatim>\<open>String.prototype.trim\<close> strips white space and line terminators: TAB, LF, VT, FF, CR,
  SP, NBSP, the other space separators of Unicode, LS, PS and the byte order mark.
\<close>

definition is_ws :: "16 word \<Rightarrow> bool" where
  "is_ws c = (c \<in> set [0x09, 0x0A, 0x0B, 0x0C, 0x0D, 0x20, 0xA0, 0x1680,
     0x2000, 0x2001, 0x2002, 0x2003, 0x2004, 0x2005, 0x2006, 0x2007, 0x2008, 0x2009, 0x200A,
     0x2028, 0x2029, 0x202F, 0x205F, 0x3000, 0xFEFF])"

definition trim :: "jsstring \<Rightarrow> jsstring" where
  "trim s = rev (dropWhile is_ws (rev (dropWhile is_ws s)))"

text \<open>
  \<^verbatim>\<open>tryParseLine\<close>. \<open>parse\<close> stands for \<^verbatim>\<open>JSON.parse\<close> of the runtime (\<open>None\<close>: it
  throws); an exception of \<open>parseVideoInfo\<close> is caught by the same \<^verbatim>\<open>catch\<close>.
\<close>

definition tryParseLine :: "(jsstring \<Rightarrow> jsval option) \<Rightarrow> jsstring \<Rightarrow> VideoInfo list \<Rightarrow> VideoInfo list" where
  "tryParseLine parse line vs =
     (let trimmed = trim line in
      if trimmed = [] then vs
      else case parse trimmed of
             None \<Rightarrow> vs
           | Some info \<Rightarrow> (case parseVideoInfo info of Inl e \<Rightarrow> vs | Inr v \<Rightarrow> vs @ [v]))"

text \<open>\<^verbatim>\<open>buffer.indexOf(c)\<close>, with \<open>None\<close> for -1.\<close>

fun indexOf :: "16 word \<Rightarrow> jsstring \<Rightarrow> nat option" where
  "indexOf c [] = None"
| "indexOf c (x # xs) = (if x = c then Some 0 else map_option Suc (indexOf c xs))"

definition endsWith :: "jsstring \<Rightarrow> 16 word \<Rightarrow> bool" where
  "endsWith s c = (s \<noteq> [] \<and> last s = c)"

text \<open>The \<^verbatim>\<open>while (true)\<close> loop of \<^verbatim>\<open>consumeNdjson\<close>, on the buffer and the records.\<close>

function consume_loop :: "(jsstring \<Rightarrow> jsval option) \<Rightarrow> jsstring \<Rightarrow> VideoInfo list \<Rightarrow> jsstring \<times> VideoInfo list" where
  "consume_loop parse buf vs =
     (case indexOf LF buf of
        None \<Rightarrow> (buf, vs)
      | Some nl \<Rightarrow>
          (let line = take nl buf;
               line' = (if endsWith line CR then butlast line else line)
           in consume_loop parse (drop (nl + 1) buf) (tryParseLine parse line' vs)))"
  by pat_completeness auto
termination
proof (relation "measure (\<lambda>(parse, buf, vs). length buf)")
  show "wf (measure (\<lambda>(parse, buf, vs). length buf))" by simp
next
  fix parse :: "jsstring \<Rightarrow> jsval option" and buf :: jsstring and vs :: "VideoInfo list"
    and nl line line'
  assume "indexOf LF buf = Some nl"
  moreover have "indexOf c xs = Some n \<Longrightarrow> n < length xs" for c xs n
    by (induction xs arbitrary: n) (auto split: if_splits)
  ultimately have "nl < length buf" by blast
  then show "((parse, drop (nl + 1) buf, tryParseLine parse line' vs), (parse, buf, vs))
      \<in> measure (\<lambda>(parse, buf, vs). length buf)"
    by simp
qed

declare consume_loop.simps [simp del]

record collector =
  buffer :: jsstring
  videos :: "VideoInfo list"

text \<open>
  \<^verbatim>\<open>consumeNdjson\<close>, from the statement after \<^verbatim>\<open>chunk.toString()\<close>: \<open>chunk\<close> is the
  text of the chunk. The decoding of a \<^verbatim>\<open>Buffer\<close> comes with \<open>stdout_data\<close> below.
\<close>

definition consumeNdjson :: "(jsstring \<Rightarrow> jsval option) \<Rightarrow> jsstring \<Rightarrow> collector \<Rightarrow> collector" where
  "consumeNdjson parse chunk st =
     (let buffer' = buffer st @ chunk in
      if length buffer' > MAX_BUFFER_CHARS then st\<lparr>buffer := []\<rparr>
      else (case consume_loop parse buffer' (videos st) of
              (b, vs) \<Rightarrow> \<lparr>buffer = b, videos = vs\<rparr>))"

text \<open>
  \<^verbatim>\<open>buffer.split(/\r?\n/)\<close>: a line ends at LF or at CR LF; the text after the last
  delimiter is the last element (empty when the buffer ends with a delimiter).
\<close>

fun split_lines :: "jsstring \<Rightarrow> jsstring \<Rightarrow> jsstring list" where
  "split_lines cur [] = [cur]"
| "split_lines cur (c # cs) =
     (if c = LF then cur # split_lines [] cs
      else if c = CR \<and> cs \<noteq> [] \<and> hd cs = LF then cur # split_lines [] (tl cs)
      else split_lines (cur @ [c]) cs)"

definition flushNdjson :: "(jsstring \<Rightarrow> jsval option) \<Rightarrow> collector \<Rightarrow> collector" where
  "flushNdjson parse st =
     (if buffer st = [] then st
      else \<lparr>buffer = [], videos = fold (tryParseLine parse) (split_lines [] (buffer st)) (videos st)\<rparr>)"

subsection \<open>Process events\<close>

text \<open>
  The promise of \<^verbatim>\<open>searchYouTube\<close> rejects with an \<^verbatim>\<open>Error\<close>; the exit code of the
  \<^verbatim>\<open>close\<close> event is a number, or \<^verbatim>\<open>null\<close> when a signal ended the process.
\<close>

datatype search_error =
    ToolExecutionFailed "int option"
  | ToolNotInstalled
  | SpawnFailed string

definition on_close :: "(jsstring \<Rightarrow> jsval option) \<Rightarrow> int option \<Rightarrow> collector \<Rightarrow> search_error + VideoInfo list" where
  "on_close parse code st =
     (let st' = flushNdjson parse st in
      if code \<noteq> Some 0 \<and> length (videos st') = 0 then Inl (ToolExecutionFailed code)
      else Inr (videos st'))"

text \<open>
  One run of the search whose process ends with a \<^verbatim>\<open>close\<close> event: the chunks of its
  standard output in arrival order, as texts, then the exit code.
\<close>

definition collect_stream :: "(jsstring \<Rightarrow> jsval option) \<Rightarrow> jsstring list \<Rightarrow> collector" where
  "collect_stream parse chunks = fold (consumeNdjson parse) chunks \<lparr>buffer = [], videos = []\<rparr>"

text \<open>The records held once the stream has been read and flushed.\<close>

definition parsed_records :: "(jsstring \<Rightarrow> jsval option) \<Rightarrow> jsstring list \<Rightarrow> VideoInfo list" where
  "parsed_records parse chunks = videos (flushNdjson parse (collect_stream parse chunks))"

definition searchYouTube_run :: "(jsstring \<Rightarrow> jsval option) \<Rightarrow> jsstring list \<Rightarrow> int option \<Rightarrow> search_error + VideoInfo list" where
  "searchYouTube_run parse chunks code = on_close parse code (collect_stream parse chunks)"

subsection \<open>The chunks of the standard output\<close>

text \<open>
  The stream is read without \<^verbatim>\<open>setEncoding\<close>, so every \<^verbatim>\<open>data\<close> event carries a
  \<^verbatim>\<open>Buffer\<close>, and \<^verbatim>\<open>chunk.toString()\<close> decodes the bytes of that one chunk as UTF-8.
  The decoder is the one of the Encoding standard, which the runtime follows: an ill-formed
  or unfinished sequence gives the replacement character U+FFFD, and a byte that cannot
  continue the pending sequence is read again as the first byte of the next one. Its state
  is the number of bytes the pending sequence still needs, the bits of the code point read
  so far, and the range allowed for the next byte. No byte order mark is removed.
\<close>

type_synonym byte = "8 word"

record utf8 =
  bytes_needed :: nat
  code_point :: nat
  lower_boundary :: nat
  upper_boundary :: nat

definition utf8_init :: utf8 where
  "utf8_init = \<lparr>bytes_needed = 0, code_point = 0, lower_boundary = 0x80, upper_boundary = 0xBF\<rparr>"

text \<open>The UTF-16 code units of a code point.\<close>

definition utf16 :: "nat \<Rightarrow> jsstring" where
  "utf16 cp =
     (if cp < 0x10000 then [of_nat cp]
      else [of_nat (0xD800 + (cp - 0x10000) div 0x400), of_nat (0xDC00 + (cp - 0x10000) mod 0x400)])"

text \<open>A byte read when no sequence is pending.\<close>

definition utf8_first :: "nat \<Rightarrow> utf8 \<times> jsstring" where
  "utf8_first b =
     (if b < 0x80 then (utf8_init, [of_nat b])
      else if 0xC2 \<le> b \<and> b \<le> 0xDF
      then (\<lparr>bytes_needed = 1, code_point = b - 0xC0, lower_boundary = 0x80, upper_boundary = 0xBF\<rparr>, [])
      else if 0xE0 \<le> b \<and> b \<le> 0xEF
      then (\<lparr>bytes_needed = 2, code_point = b - 0xE0,
             lower_boundary = (if b = 0xE0 then 0xA0 else 0x80),
             upper_boundary = (if b = 0xED then 0x9F else 0xBF)\<rparr>, [])
      else if 0xF0 \<le> b \<and> b \<le> 0xF4
      then (\<lparr>bytes_needed = 3, code_point = b - 0xF0,
             lower_boundary = (if b = 0xF0 then 0x90 else 0x80),
             upper_boundary = (if b = 0xF4 then 0x8F else 0xBF)\<rparr>, [])
      else (utf8_init, [0xFFFD]))"

definition utf8_step :: "utf8 \<Rightarrow> nat \<Rightarrow> utf8 \<times> jsstring" where
  "utf8_step st b =
     (if bytes_needed st = 0 then utf8_first b
      else if b < lower_boundary st \<or> upper_boundary st < b
      then (case utf8_first b of (st', out) \<Rightarrow> (st', 0xFFFD # out))
      else if bytes_needed st = 1 then (utf8_init, utf16 (code_point st * 64 + (b - 0x80)))
      else (\<lparr>bytes_needed = bytes_needed st - 1, code_point = code_point st * 64 + (b - 0x80),
             lower_boundary = 0x80, upper_boundary = 0xBF\<rparr>, []))"





subsection \<open>Payloads and inputs of the examples\<close>

text \<open>The decoder state after the bytes of a chunk; a chunk that ends between two sequences.\<close>

fun utf8_after :: "utf8 \<Rightarrow> byte list \<Rightarrow> utf8" where
  "utf8_after st [] = st"
| "utf8_after st (b # bs) = utf8_after (fst (utf8_step st (unat b))) bs"

definition whole_sequences :: "byte list \<Rightarrow> bool" where
  "whole_sequences buf = (bytes_needed (utf8_after utf8_init buf) = 0)"



text \<open>The line with the carriage return before its delimiter removed, as both splitters do.\<close>

definition strip_cr :: "jsstring \<Rightarrow> jsstring" where
  "strip_cr l = (if endsWith l CR then butlast l else l)"

text \<open>A payload: each of its lines followed by the delimiter LF.\<close>

definition terminated :: "jsstring list \<Rightarrow> jsstring" where
  "terminated ls = concat (map (\<lambda>l. l @ [LF]) ls)"


text \<open>
  \<^verbatim>\<open>JSON.parse\<close> on the inputs of the examples below, whose trimmed lines are the texts
  \<^verbatim>\<open>{}\<close>, \<^verbatim>\<open>null\<close>, an object with the one property \<^verbatim>\<open>id\<close> whose string has no
  escape, or no JSON at all. The theorems about all inputs hold for every \<open>parse\<close>.
\<close>

definition parse_empty_object :: "jsstring \<Rightarrow> jsval option" where
  "parse_empty_object s = (if s = ascii ''{}'' then Some (JObj []) else None)"


text \<open>The JSON text \<^verbatim>\<open>{}\<close> followed by \<open>n\<close> spaces; a run of \<open>n\<close> letters.\<close>

definition padded_line :: "nat \<Rightarrow> jsstring" where
  "padded_line n = ascii ''{}'' @ replicate n 0x20"

definition filler :: "nat \<Rightarrow> jsstring" where
  "filler n = replicate n 0x61"

text \<open>The record \<open>parseVideoInfo\<close> makes of the empty object.\<close>

definition unknown_video :: VideoInfo where
  "unknown_video = \<lparr>vi_id = JUndefined, title = JStr (ascii ''Unknown Title''),
         channel = JStr (ascii ''Unknown Channel''), channelUrl = JUndefined,
         viewCount = JNum 0, likeCount = JUndefined, thumbnail = JUndefined,
         description = JUndefined\<rparr>"

subsection \<open>Search options and the argument list\<close>

datatype sort_order = Relevance | UploadDate | ViewCount | Rating

datatype date_range = Today | ThisWeek | ThisMonth | ThisYear

text \<open>
  An optional property of an options object: absent, or present with a value, which may be
  \<^verbatim>\<open>undefined\<close> (\<open>None\<close>). Numbers of the options are integers here.
\<close>

datatype 'a optional = Absent | Present "'a option"

record SearchOptions =
  limit :: "int optional"
  sort_by :: "sort_order optional"
  dateRange :: "date_range optional"
  maxAgeDays :: "int optional"

definition DEFAULT_OPTIONS :: SearchOptions where
  "DEFAULT_OPTIONS = \<lparr>limit = Present (Some 10), sort_by = Present (Some ViewCount),
     dateRange = Absent, maxAgeDays = Present (Some 7)\<rparr>"

text \<open>\<^verbatim>\<open>{ ...a, ...b }\<close>: every property present in \<open>b\<close> replaces the one of \<open>a\<close>.\<close>

definition spread_prop :: "'a optional \<Rightarrow> 'a optional \<Rightarrow> 'a optional" where
  "spread_prop a b = (case b of Absent \<Rightarrow> a | Present v \<Rightarrow> Present v)"

definition spread :: "SearchOptions \<Rightarrow> SearchOptions \<Rightarrow> SearchOptions" where
  "spread a b = \<lparr>limit = spread_prop (limit a) (limit b),
     sort_by = spread_prop (sort_by a) (sort_by b),
     dateRange = spread_prop (dateRange a) (dateRange b),
     maxAgeDays = spread_prop (maxAgeDays a) (maxAgeDays b)\<rparr>"

text \<open>Reading a property: \<^verbatim>\<open>undefined\<close> when it is absent.\<close>

definition get :: "'a optional \<Rightarrow> 'a option" where
  "get p = (case p of Absent \<Rightarrow> None | Present v \<Rightarrow> v)"

definition truthy_num :: "int option \<Rightarrow> bool" where
  "truthy_num v = (case v of None \<Rightarrow> False | Some n \<Rightarrow> n \<noteq> 0)"

fun digits :: "nat \<Rightarrow> string" where
  "digits n = (if n < 10 then [''0123456789'' ! n] else digits (n div 10) @ [''0123456789'' ! (n mod 10)])"

declare digits.simps [simp del]

text \<open>
  What the argument list takes from the runtime. The \<^verbatim>\<open>Date\<close> object, on instants in
  milliseconds: the clock, \<^verbatim>\<open>d.setDate(d.getDate() - n)\<close> and \<^verbatim>\<open>d.toISOString()\<close>. And
  the text of a number beyond the integers that are all doubles (the shortest digits that
  identify the double, in exponent notation from \<open>10^21\<close>).
\<close>

record js_runtime =
  new_Date :: int
  setDate_back :: "int \<Rightarrow> int \<Rightarrow> int"
  toISOString :: "int \<Rightarrow> string"
  Number_toString :: "int \<Rightarrow> string"

text \<open>
  \<^verbatim>\<open>String(v)\<close> and \<^verbatim>\<open>`${v}`\<close> for an integer or \<^verbatim>\<open>undefined\<close>: the decimal digits
  of an integer of magnitude at most \<open>2^53\<close>, the text the runtime gives for a larger one.
\<close>

definition String_of :: "js_runtime \<Rightarrow> int option \<Rightarrow> string" where
  "String_of rt v = (case v of None \<Rightarrow> ''undefined''
     | Some n \<Rightarrow>
         (if \<bar>n\<bar> \<le> 9007199254740992
          then (if n < 0 then CHR ''-'' # digits (nat (- n)) else digits (nat n))
          else Number_toString rt n))"

definition dateStr :: "js_runtime \<Rightarrow> int \<Rightarrow> string" where
  "dateStr rt n = filter (\<lambda>c. c \<noteq> CHR ''-'') (take 10 (toISOString rt (setDate_back rt (new_Date rt) n)))"

fun dateFilter :: "date_range \<Rightarrow> string" where
  "dateFilter Today = ''today''"
| "dateFilter ThisWeek = ''thisweek''"
| "dateFilter ThisMonth = ''thismonth''"
| "dateFilter ThisYear = ''thisyear''"

text \<open>
  The argument list \<^verbatim>\<open>searchYouTube\<close> hands to \<^verbatim>\<open>spawn\<close>. The last \<^verbatim>\<open>if\<close> tests
  \<^verbatim>\<open>opts.maxAgeDays\<close> (a number that is not zero) before \<^verbatim>\<open>dateRange\<close>.
\<close>

definition searchArgs :: "js_runtime \<Rightarrow> string \<Rightarrow> SearchOptions \<Rightarrow> string list" where
  "searchArgs rt keyword options =
     (let opts = spread DEFAULT_OPTIONS options;
          searchPrefix = (if truthy_num (get (maxAgeDays opts)) then ''ytsearchdate'' else ''ytsearch'');
          searchQuery = searchPrefix @ String_of rt (get (limit opts)) @ '':'' @ keyword;
          args = [searchQuery, ''--dump-json'', ''--flat-playlist'', ''--no-warnings'', ''--quiet''];
          args = (if get (sort_by opts) \<noteq> None \<and> get (sort_by opts) \<noteq> Some Relevance
                  then args @ [''--playlist-end'', String_of rt (get (limit opts))] else args);
          byRange = (case get (dateRange opts) of
                       Some r \<Rightarrow> args @ [''--dateafter'', dateFilter r]
                     | None \<Rightarrow> args)
      in case get (maxAgeDays opts) of
           Some n \<Rightarrow> if n \<noteq> 0 then args @ [''--dateafter'', dateStr rt n] else byRange
         | None \<Rightarrow> byRange)"

section \<open>The collector service (services/collector.ts)\<close>

subsection \<open>Tables (db/schema.ts)\<close>

record Keyword =
  kw_id :: nat
  kw_name :: string
  kw_category :: "string option"
  kw_isActive :: "bool option"
  kw_createdAt :: "int option"

record VideoRow =
  v_id :: nat
  v_videoId :: string
  v_keywordId :: "nat option"
  v_title :: string
  v_url :: string
  v_channelName :: "string option"
  v_viewCount :: "int option"
  v_likeCount :: "int option"
  v_duration :: "string option"
  v_thumbnail :: "string option"
  v_publishedAt :: "int option"
  v_collectedAt :: "int option"

record TrendRow =
  t_id :: nat
  t_keywordId :: "nat option"
  t_date :: int
  t_period :: string
  t_videoCount :: "int option"
  t_totalViews :: "int option"
  t_avgViews :: "int option"
  t_topVideoId :: "nat option"
  t_createdAt :: "int option"

datatype run_status = Success | Partial | Failed

record LogRow =
  l_id :: nat
  l_startedAt :: "int option"
  l_completedAt :: "int option"
  l_keywordCount :: "int option"
  l_videoCount :: "int option"
  l_status :: "run_status option"
  l_error :: "string option"

text \<open>
  The database: each table as the list of its rows in the order a query without
  \<^verbatim>\<open>ORDER BY\<close> returns them, and the counters behind the \<^verbatim>\<open>autoIncrement\<close> keys.
\<close>

record database =
  tbl_keywords :: "Keyword list"
  tbl_videos :: "VideoRow list"
  tbl_trends :: "TrendRow list"
  tbl_collectionLogs :: "LogRow list"
  next_trend_id :: nat
  next_log_id :: nat

subsection \<open>Results\<close>

record CollectResult =
  keywordId :: nat
  keywordName :: string
  videosCollected :: nat
  errors :: "string option"

record CollectAllResult =
  startedAt :: int
  completedAt :: int
  totalKeywords :: nat
  totalVideos :: nat
  results :: "CollectResult list"
  status :: run_status

datatype collect_error = KeywordNotFound nat | YtDlpNotInstalled

subsection \<open>What the service calls\<close>

text \<open>
  The collaborators of the collector, as the tests mock them: the preflight
  \<^verbatim>\<open>checkYtDlp\<close>; \<^verbatim>\<open>searchYouTube\<close>, whose answer to its n-th invocation (counted from 0)
  is the message of the rejection or the list of videos; the
  \<^verbatim>\<open>insert ... onConflictDoUpdate\<close> statement on the videos table (\<open>None\<close>: it throws);
  and the clock readings of one run.
\<close>

record services =
  checkYtDlp :: bool
  searchYouTube :: "nat \<Rightarrow> string \<Rightarrow> int \<Rightarrow> string + VideoInfo list"
  upsertVideo :: "Keyword \<Rightarrow> VideoInfo \<Rightarrow> VideoRow list \<Rightarrow> VideoRow list option"
  clock_startedAt :: int
  clock_completedAt :: int
  clock_trends :: int
  startOfDay :: "int \<Rightarrow> int"

text \<open>The state a run works on: the database and the invocations of the search so far.\<close>

record world =
  db :: database
  searchCalls :: "(string \<times> int) list"

subsection \<open>collectByKeyword\<close>

text \<open>The \<^verbatim>\<open>for\<close> loop that saves the videos: the count and the videos table.\<close>

definition save_video :: "services \<Rightarrow> Keyword \<Rightarrow> VideoInfo \<Rightarrow> nat \<times> VideoRow list \<Rightarrow> nat \<times> VideoRow list" where
  "save_video env keyword video acc =
     (case upsertVideo env keyword video (snd acc) of
        None \<Rightarrow> acc
      | Some rows \<Rightarrow> (fst acc + 1, rows))"

definition collectByKeyword :: "services \<Rightarrow> nat \<Rightarrow> int \<Rightarrow> world \<Rightarrow> collect_error + CollectResult \<times> world" where
  "collectByKeyword env kid maxn w =
     (case find (\<lambda>k. kw_id k = kid) (tbl_keywords (db w)) of
        None \<Rightarrow> Inl (KeywordNotFound kid)
      | Some keyword \<Rightarrow>
          if kw_isActive keyword \<noteq> Some True
          then Inr (\<lparr>keywordId = kid, keywordName = kw_name keyword, videosCollected = 0,
                     errors = Some ''Keyword is inactive''\<rparr>, w)
          else
            (let w1 = w\<lparr>searchCalls := searchCalls w @ [(kw_name keyword, maxn)]\<rparr> in
             case searchYouTube env (length (searchCalls w)) (kw_name keyword) maxn of
               Inl message \<Rightarrow>
                 Inr (\<lparr>keywordId = kid, keywordName = kw_name keyword, videosCollected = 0,
                       errors = Some message\<rparr>, w1)
             | Inr searchResults \<Rightarrow>
                 (let saved = fold (save_video env keyword) searchResults (0, tbl_videos (db w1)) in
                  Inr (\<lparr>keywordId = kid, keywordName = kw_name keyword,
                        videosCollected = fst saved, errors = None\<rparr>,
                       w1\<lparr>db := (db w1)\<lparr>tbl_videos := snd saved\<rparr>\<rparr>))))"

subsection \<open>Numbers\<close>

text \<open>
  The numbers of the aggregator are doubles. \<open>to_double\<close> rounds a rational to 53
  significant bits, to the nearest and at a tie to the even one, as every arithmetic
  operation and every conversion to a number does; \<open>binade x\<close> is the exponent of the power
  of two at or below \<open>x > 0\<close>. The range of the exponent of a double is not modelled: the
  integers of the columns are 64-bit, and their sums and quotients stay far inside it.
\<close>

definition binade :: "rat \<Rightarrow> int" where
  "binade x = (case quotient_of x of (p, q) \<Rightarrow>
     (let d = bitlen p - bitlen q in if 2 powi d \<le> x then d else d - 1))"

definition round_half_even :: "rat \<Rightarrow> int" where
  "round_half_even y =
     (let f = \<lfloor>y\<rfloor>; d = y - of_int f in
      if d < 1 / 2 then f else if 1 / 2 < d then f + 1 else if even f then f else f + 1)"

definition to_double :: "rat \<Rightarrow> rat" where
  "to_double x =
     (if x = 0 then 0
      else let u = 2 powi (binade \<bar>x\<bar> - 52) in of_int (round_half_even (x / u)) * u)"

text \<open>
  The double nearest to an integer, itself an integer: what the driver returns for the
  integer of a column, and what the sum of two integral doubles is rounded to.
\<close>

definition double_of_int :: "int \<Rightarrow> int" where
  "double_of_int z = \<lfloor>to_double (of_int z)\<rfloor>"

text \<open>\<^verbatim>\<open>a + b\<close> on integral doubles, and \<^verbatim>\<open>a / n\<close> for a length \<open>n\<close>.\<close>

definition js_add :: "int \<Rightarrow> int \<Rightarrow> int" where
  "js_add a b = double_of_int (a + b)"

definition js_div :: "int \<Rightarrow> nat \<Rightarrow> rat" where
  "js_div a n = to_double (of_int a / of_nat n)"

text \<open>\<^verbatim>\<open>Math.round\<close>: the nearest integer, a tie going up.\<close>

definition Math_round :: "rat \<Rightarrow> int" where
  "Math_round x = \<lfloor>x + 1 / 2\<rfloor>"

subsection \<open>updateTrends\<close>

text \<open>\<^verbatim>\<open>x || 0\<close> on a number or \<^verbatim>\<open>null\<close>.\<close>

definition or_zero :: "int option \<Rightarrow> int" where
  "or_zero v = (case v of None \<Rightarrow> 0 | Some n \<Rightarrow> n)"

text \<open>
  \<^verbatim>\<open>v.viewCount || 0\<close> on the number the query returns for the column.
\<close>

definition js_views :: "VideoRow \<Rightarrow> int" where
  "js_views v = or_zero (map_option double_of_int (v_viewCount v))"

definition todayVideos :: "database \<Rightarrow> Keyword \<Rightarrow> int \<Rightarrow> VideoRow list" where
  "todayVideos d keyword today =
     filter (\<lambda>v. v_keywordId v = Some (kw_id keyword) \<and>
                 (case v_collectedAt v of None \<Rightarrow> False | Some c \<Rightarrow> today \<le> c))
       (tbl_videos d)"

text \<open>The \<^verbatim>\<open>reduce\<close> without initial value that picks the top video.\<close>

definition topVideo :: "VideoRow \<Rightarrow> VideoRow list \<Rightarrow> VideoRow" where
  "topVideo v0 rest =
     foldl (\<lambda>mx v. if js_views v > js_views mx then v else mx) v0 rest"

definition trend_key :: "Keyword \<Rightarrow> int \<Rightarrow> TrendRow \<Rightarrow> bool" where
  "trend_key keyword today t =
     (t_keywordId t = Some (kw_id keyword) \<and> t_date t = today \<and> t_period t = ''daily'')"

text \<open>
  \<^verbatim>\<open>db.update(trends).set({...}).where(eq(trends.id, id))\<close> on one row of the table.
\<close>

definition set_where_id :: "nat \<Rightarrow> int \<Rightarrow> int \<Rightarrow> int \<Rightarrow> nat \<Rightarrow> TrendRow \<Rightarrow> TrendRow" where
  "set_where_id eid cnt sumViews avg topId t =
     (if t_id t = eid
      then t\<lparr>t_videoCount := Some cnt, t_totalViews := Some sumViews,
             t_avgViews := Some avg, t_topVideoId := Some topId\<rparr>
      else t)"

text \<open>The body of the loop over all keywords, for one keyword.\<close>

definition updateTrends_step :: "int \<Rightarrow> int \<Rightarrow> Keyword \<Rightarrow> database \<Rightarrow> database" where
  "updateTrends_step today now keyword d =
     (case todayVideos d keyword today of
        [] \<Rightarrow> d
      | v0 # rest \<Rightarrow>
          (let totalViews = foldl (\<lambda>sum v. js_add sum (js_views v)) 0 (v0 # rest);
               avgViews = Math_round (js_div totalViews (length (v0 # rest)));
               best = topVideo v0 rest
           in case find (trend_key keyword today) (tbl_trends d) of
                Some existing \<Rightarrow>
                  d\<lparr>tbl_trends :=
                      map (set_where_id (t_id existing) (int (length (v0 # rest))) totalViews
                             avgViews (v_id best))
                        (tbl_trends d)\<rparr>
              | None \<Rightarrow>
                  d\<lparr>tbl_trends := tbl_trends d @
                      [\<lparr>t_id = next_trend_id d, t_keywordId = Some (kw_id keyword), t_date = today,
                        t_period = ''daily'', t_videoCount = Some (int (length (v0 # rest))),
                        t_totalViews = Some totalViews, t_avgViews = Some avgViews,
                        t_topVideoId = Some (v_id best), t_createdAt = Some now\<rparr>],
                    next_trend_id := Suc (next_trend_id d)\<rparr>))"

text \<open>
  \<^verbatim>\<open>updateTrends\<close>, with its two clock readings as parameters: \<open>today\<close> is
  \<^verbatim>\<open>new Date()\<close> after \<^verbatim>\<open>setHours(0, 0, 0, 0)\<close>, \<open>now\<close> the default of \<^verbatim>\<open>createdAt\<close>.
\<close>

definition updateTrends :: "int \<Rightarrow> int \<Rightarrow> database \<Rightarrow> database" where
  "updateTrends today now d = fold (updateTrends_step today now) (tbl_keywords d) d"

subsection \<open>collectAll\<close>

text \<open>\<^verbatim>\<open>if (result.errors)\<close>: an optional string is truthy when set and not empty.\<close>

definition truthy_str :: "string option \<Rightarrow> bool" where
  "truthy_str v = (case v of None \<Rightarrow> False | Some s \<Rightarrow> s \<noteq> [])"

definition classify :: "bool \<Rightarrow> nat \<Rightarrow> run_status" where
  "classify hasErrors nvideos = (if hasErrors then Partial else if nvideos > 0 then Success else Failed)"

text \<open>
  The sequential loop over the active keywords, on \<open>results\<close>, \<open>totalVideos\<close> and
  \<open>hasErrors\<close>; an exception of \<open>collectByKeyword\<close> ends the run. (The pause of two
  seconds between two keywords changes no value.)
\<close>

fun collect_loop :: "services \<Rightarrow> int \<Rightarrow> Keyword list \<Rightarrow> CollectResult list \<times> nat \<times> bool \<Rightarrow> world
    \<Rightarrow> collect_error + (CollectResult list \<times> nat \<times> bool) \<times> world" where
  "collect_loop env maxn [] acc w = Inr (acc, w)"
| "collect_loop env maxn (keyword # rest) (rs, nvideos, hasErrors) w =
     (case collectByKeyword env (kw_id keyword) maxn w of
        Inl e \<Rightarrow> Inl e
      | Inr (r, w') \<Rightarrow>
          collect_loop env maxn rest
            (rs @ [r], nvideos + videosCollected r, hasErrors \<or> truthy_str (errors r)) w')"

definition collectAll :: "services \<Rightarrow> int \<Rightarrow> world \<Rightarrow> collect_error + CollectAllResult \<times> world" where
  "collectAll env maxn w =
     (if \<not> checkYtDlp env then Inl YtDlpNotInstalled
      else
        (let activeKeywords = filter (\<lambda>k. kw_isActive k = Some True) (tbl_keywords (db w)) in
         if length activeKeywords = 0
         then Inr (\<lparr>startedAt = clock_startedAt env, completedAt = clock_completedAt env,
                    totalKeywords = 0, totalVideos = 0, results = [], status = Success\<rparr>, w)
         else
           (case collect_loop env maxn activeKeywords ([], 0, False) w of
              Inl e \<Rightarrow> Inl e
            | Inr ((rs, nvideos, hasErrors), w1) \<Rightarrow>
                (let st = classify hasErrors nvideos;
                     d1 = db w1;
                     d2 = d1\<lparr>tbl_collectionLogs := tbl_collectionLogs d1 @
                            [\<lparr>l_id = next_log_id d1, l_startedAt = Some (clock_startedAt env),
                              l_completedAt = Some (clock_completedAt env),
                              l_keywordCount = Some (int (length activeKeywords)),
                              l_videoCount = Some (int nvideos), l_status = Some st,
                              l_error = None\<rparr>],
                            next_log_id := Suc (next_log_id d1)\<rparr>;
                     d3 = updateTrends (startOfDay env (clock_trends env)) (clock_trends env) d2
                 in Inr (\<lparr>startedAt = clock_startedAt env, completedAt = clock_completedAt env,
                          totalKeywords = length activeKeywords, totalVideos = nvideos,
                          results = rs, status = st\<rparr>,
                         w1\<lparr>db := d3\<rparr>)))))"

subsection \<open>Notions used to state the properties of the aggregator\<close>

text \<open>The view count a row holds, none counting as zero.\<close>

definition views :: "VideoRow \<Rightarrow> int" where
  "views v = or_zero (v_viewCount v)"

text \<open>
  The primary key of the trends table: the ids of its rows are distinct and below the
  counter of the \<^verbatim>\<open>autoIncrement\<close> column.
\<close>

definition trends_keyed :: "database \<Rightarrow> bool" where
  "trends_keyed d = (distinct (map t_id (tbl_trends d)) \<and>
     list_all (\<lambda>t. t_id t < next_trend_id d) (tbl_trends d))"

text \<open>A row holds the four values the loop body computes from the videos of the day.\<close>

definition stored :: "VideoRow list \<Rightarrow> TrendRow \<Rightarrow> bool" where
  "stored vs row =
     (t_videoCount row = Some (int (length vs)) \<and>
      t_totalViews row = Some (foldl (\<lambda>sum v. js_add sum (js_views v)) 0 vs) \<and>
      t_avgViews row = Some (Math_round (js_div (foldl (\<lambda>sum v. js_add sum (js_views v)) 0 vs) (length vs))) \<and>
      t_topVideoId row = Some (v_id (topVideo (hd vs) (tl vs))))"

text \<open>The row found under the key of a keyword holds the aggregate of its videos of the day.\<close>

definition agg_ok :: "int \<Rightarrow> Keyword \<Rightarrow> database \<Rightarrow> bool" where
  "agg_ok today keyword d =
     (todayVideos d keyword today = [] \<or>
      (case find (trend_key keyword today) (tbl_trends d) of
         None \<Rightarrow> False
       | Some row \<Rightarrow> stored (todayVideos d keyword today) row))"

subsection \<open>A mocked environment and small databases for the examples\<close>

text \<open>
  As in the tests of the collector: the search answers three videos for the keyword
  \<^verbatim>\<open>ok\<close> and rejects for every other one, and the mocked insert stores nothing.
\<close>

definition mock_services :: services where
  "mock_services = \<lparr>checkYtDlp = True,
     searchYouTube = (\<lambda>n name maxn. if name = ''ok'' then Inr [unknown_video, unknown_video, unknown_video]
                                       else Inl ''yt-dlp exited with code 1''),
     upsertVideo = (\<lambda>keyword video rows. Some rows),
     clock_startedAt = 1000, clock_completedAt = 5000, clock_trends = 5001,
     startOfDay = (\<lambda>t. 0)\<rparr>"

definition kw :: "nat \<Rightarrow> string \<Rightarrow> bool \<Rightarrow> Keyword" where
  "kw i name active = \<lparr>kw_id = i, kw_name = name, kw_category = None,
     kw_isActive = Some active, kw_createdAt = None\<rparr>"

definition world_of :: "Keyword list \<Rightarrow> world" where
  "world_of ks = \<lparr>db = \<lparr>tbl_keywords = ks, tbl_videos = [], tbl_trends = [],
     tbl_collectionLogs = [], next_trend_id = 1, next_log_id = 1\<rparr>, searchCalls = []\<rparr>"

definition video_row :: "nat \<Rightarrow> nat \<Rightarrow> int \<Rightarrow> int \<Rightarrow> VideoRow" where
  "video_row i kid n collected = \<lparr>v_id = i, v_videoId = ''v'' @ digits i, v_keywordId = Some kid,
     v_title = ''t'', v_url = ''u'', v_channelName = None, v_viewCount = Some n,
     v_likeCount = None, v_duration = None, v_thumbnail = None, v_publishedAt = None,
     v_collectedAt = Some collected\<rparr>"

text \<open>
  One keyword and four videos of it: three collected on the day that starts at 86400000,
  with 100, 300 and 50 views, and one collected before.
\<close>

definition db_of_day :: database where
  "db_of_day = \<lparr>tbl_keywords = [kw 1 ''ok'' True],
     tbl_videos = [video_row 1 1 100 86400500, video_row 2 1 300 86400600, video_row 3 1 50 86400700,
                   video_row 4 1 999 500],
     tbl_trends = [], tbl_collectionLogs = [], next_trend_id = 1, next_log_id = 1\<rparr>"

text \<open>
  One keyword and two videos of it collected on that day, with 9007199254740992 views
  (\<open>2^53\<close>) and 1 view.
\<close>

definition db_of_large :: database where
  "db_of_large = \<lparr>tbl_keywords = [kw 1 ''ok'' True],
     tbl_videos = [video_row 1 1 9007199254740992 86400500, video_row 2 1 1 86400600],
     tbl_trends = [], tbl_collectionLogs = [], next_trend_id = 1, next_log_id = 1\<rparr>"

section \<open>Properties of the stream parser\<close>

subsection \<open>The loop of consumeNdjson\<close>

lemma indexOf_lt: "indexOf c xs = Some n \<Longrightarrow> n < length xs"
  by (induction xs arbitrary: n) (auto split: if_splits)

lemma indexOf_None: "indexOf c xs = None \<longleftrightarrow> c \<notin> set xs"
  by (induction xs) auto

lemma indexOf_append_Some: "indexOf c xs = Some n \<Longrightarrow> indexOf c (xs @ ys) = Some n"
  by (induction xs arbitrary: n) (auto split: if_splits)

lemma indexOf_first: "c \<notin> set l \<Longrightarrow> indexOf c (l @ c # r) = Some (length l)"
  by (induction l) auto

lemma consume_loop_no_nl: "LF \<notin> set buf \<Longrightarrow> consume_loop parse buf vs = (buf, vs)"
  by (subst consume_loop.simps) (simp add: indexOf_None[symmetric])

lemma consume_loop_append:
  "consume_loop parse (fst (consume_loop parse b vs) @ c) (snd (consume_loop parse b vs))
   = consume_loop parse (b @ c) vs"
proof (induction parse b vs rule: consume_loop.induct)
  case (1 parse buf vs)
  show ?case
  proof (cases "indexOf LF buf")
    case None
    then show ?thesis by (subst (1 2) consume_loop.simps[of parse buf]) simp
  next
    case (Some nl)
    then have lt: "nl < length buf" by (rule indexOf_lt)
    have app: "indexOf LF (buf @ c) = Some nl" using Some by (rule indexOf_append_Some)
    show ?thesis
      using "1.IH"[OF Some refl refl] lt
      apply (subst (1 2) consume_loop.simps[of parse buf])
      apply (subst consume_loop.simps[of parse "buf @ c"])
      apply (simp add: Some app Let_def)
      done
  qed
qed

lemma consume_loop_length: "length (fst (consume_loop parse b vs)) \<le> length b"
proof (induction parse b vs rule: consume_loop.induct)
  case (1 parse buf vs)
  show ?case
  proof (cases "indexOf LF buf")
    case None
    then show ?thesis by (subst consume_loop.simps) simp
  next
    case (Some nl)
    show ?thesis
      using "1.IH"[OF Some refl refl]
      apply (subst consume_loop.simps)
      apply (simp add: Some Let_def)
      done
  qed
qed

lemma consume_loop_rest: "LF \<notin> set (fst (consume_loop parse b vs))"
proof (induction parse b vs rule: consume_loop.induct)
  case (1 parse buf vs)
  show ?case
  proof (cases "indexOf LF buf")
    case None
    then have "LF \<notin> set buf" by (simp add: indexOf_None)
    then show ?thesis by (simp add: consume_loop_no_nl)
  next
    case (Some nl)
    show ?thesis
      using "1.IH"[OF Some refl refl]
      apply (subst consume_loop.simps)
      apply (simp add: Some Let_def)
      done
  qed
qed

lemma fold_consume:
  "LF \<notin> set (buffer st) \<Longrightarrow> length (buffer st @ concat cs) \<le> MAX_BUFFER_CHARS \<Longrightarrow>
   fold (consumeNdjson parse) cs st =
     \<lparr>buffer = fst (consume_loop parse (buffer st @ concat cs) (videos st)),
      videos = snd (consume_loop parse (buffer st @ concat cs) (videos st))\<rparr>"
proof (induction cs arbitrary: st)
  case Nil
  then show ?case by (simp add: consume_loop_no_nl)
next
  case (Cons c cs)
  let ?r = "consume_loop parse (buffer st @ c) (videos st)"
  let ?st1 = "\<lparr>buffer = fst ?r, videos = snd ?r\<rparr>"
  have small: "\<not> length (buffer st @ c) > MAX_BUFFER_CHARS" using Cons.prems(2) by simp
  have step: "consumeNdjson parse c st = ?st1"
    using small by (simp add: consumeNdjson_def Let_def split: prod.splits)
  have len: "length (buffer ?st1 @ concat cs) \<le> MAX_BUFFER_CHARS"
    using consume_loop_length[of parse "buffer st @ c" "videos st"] Cons.prems(2) by simp
  have "fold (consumeNdjson parse) (c # cs) st = fold (consumeNdjson parse) cs ?st1"
    by (simp add: step)
  also have "\<dots> = \<lparr>buffer = fst (consume_loop parse (buffer ?st1 @ concat cs) (videos ?st1)),
      videos = snd (consume_loop parse (buffer ?st1 @ concat cs) (videos ?st1))\<rparr>"
    by (rule Cons.IH) (simp_all add: consume_loop_rest len[simplified])
  also have "\<dots> = \<lparr>buffer = fst (consume_loop parse (buffer st @ concat (c # cs)) (videos st)),
      videos = snd (consume_loop parse (buffer st @ concat (c # cs)) (videos st))\<rparr>"
    using consume_loop_append[of parse "buffer st @ c" "videos st" "concat cs"] by simp
  finally show ?case .
qed

lemma collect_stream_bounded:
  "length (concat cs) \<le> MAX_BUFFER_CHARS \<Longrightarrow>
   collect_stream parse cs =
     \<lparr>buffer = fst (consume_loop parse (concat cs) []), videos = snd (consume_loop parse (concat cs) [])\<rparr>"
  unfolding collect_stream_def by (subst fold_consume) simp_all

lemma dropWhile_rev_snoc:
  "P c \<Longrightarrow> dropWhile P (rev (dropWhile P (xs @ [c]))) = dropWhile P (rev (dropWhile P xs))"
  by (induction xs) simp_all

lemma trim_butlast_cr: "endsWith l CR \<Longrightarrow> trim (butlast l) = trim l"
proof -
  assume "endsWith l CR"
  then have "butlast l @ [CR] = l"
    using append_butlast_last_id[of l] by (simp add: endsWith_def)
  then obtain l' where l: "l = l' @ [CR]" by metis
  have ws: "is_ws CR" by (simp add: is_ws_def)
  have "trim (l' @ [CR]) = trim l'"
    unfolding trim_def using dropWhile_rev_snoc[of is_ws "CR" l', OF ws] by simp
  then show ?thesis by (simp add: l)
qed

lemma tryParseLine_strip_cr: "tryParseLine parse (strip_cr l) vs = tryParseLine parse l vs"
  by (simp add: strip_cr_def tryParseLine_def trim_butlast_cr)



lemma consume_loop_line:
  assumes "LF \<notin> set l"
  shows "consume_loop parse (l @ LF # r) vs = consume_loop parse r (tryParseLine parse l vs)"
proof -
  have "indexOf LF (l @ LF # r) = Some (length l)"
    using assms by (rule indexOf_first)
  then show ?thesis
    using tryParseLine_strip_cr[of parse l vs]
    by (subst consume_loop.simps) (simp add: Let_def strip_cr_def)
qed

lemma consume_loop_lines:
  "\<forall>l\<in>set ls. LF \<notin> set l \<Longrightarrow>
   consume_loop parse (terminated ls @ r) vs = consume_loop parse r (fold (tryParseLine parse) ls vs)"
proof (induction ls arbitrary: vs)
  case Nil
  show ?case by (simp add: terminated_def)
next
  case (Cons l ls)
  have "consume_loop parse (terminated (l # ls) @ r) vs
      = consume_loop parse (l @ LF # (terminated ls @ r)) vs"
    by (simp add: terminated_def)
  also have "\<dots> = consume_loop parse (terminated ls @ r) (tryParseLine parse l vs)"
    using Cons.prems by (simp add: consume_loop_line)
  also have "\<dots> = consume_loop parse r (fold (tryParseLine parse) ls (tryParseLine parse l vs))"
    using Cons.prems by (simp add: Cons.IH)
  finally show ?case by simp
qed

lemma split_lines_no_nl: "LF \<notin> set l \<Longrightarrow> split_lines cur l = [cur @ l]"
  by (induction l arbitrary: cur) (auto simp: neq_Nil_conv)

lemma split_lines_line:
  "LF \<notin> set l \<Longrightarrow>
   split_lines cur (l @ LF # r) = (cur @ strip_cr l) # split_lines [] r"
proof (induction l arbitrary: cur)
  case Nil
  show ?case by (simp add: strip_cr_def endsWith_def)
next
  case (Cons c l)
  show ?case
  proof (cases "l = []")
    case True
    then show ?thesis using Cons.prems by (simp add: strip_cr_def endsWith_def)
  next
    case False
    then have hd: "hd (l @ LF # r) \<noteq> LF" using Cons.prems
      by (cases l) auto
    have "strip_cr (c # l) = c # strip_cr l" using False
      by (simp add: strip_cr_def endsWith_def)
    then show ?thesis using Cons.prems hd Cons.IH[of "cur @ [c]"] by auto
  qed
qed

lemma split_lines_terminated:
  "\<forall>l\<in>set ls. LF \<notin> set l \<Longrightarrow> LF \<notin> set r \<Longrightarrow>
   split_lines [] (terminated ls @ r) = map strip_cr ls @ [r]"
proof (induction ls)
  case Nil
  then show ?case by (simp add: terminated_def split_lines_no_nl)
next
  case (Cons l ls)
  have "split_lines [] (terminated (l # ls) @ r) = split_lines [] (l @ LF # (terminated ls @ r))"
    by (simp add: terminated_def)
  then show ?case using Cons by (simp add: split_lines_line)
qed

lemma fold_tryParseLine_strip:
  "fold (tryParseLine parse) (map strip_cr ls) vs = fold (tryParseLine parse) ls vs"
  by (induction ls arbitrary: vs) (simp_all add: tryParseLine_strip_cr)

lemma butlast_terminated:
  "ls \<noteq> [] \<Longrightarrow> butlast (terminated ls) = terminated (butlast ls) @ last ls"
proof -
  assume "ls \<noteq> []"
  then obtain ks k where "ls = ks @ [k]" by (metis append_butlast_last_id)
  then show ?thesis by (simp add: terminated_def butlast_append)
qed

lemma tryParseLine_empty: "tryParseLine parse [] vs = vs"
  by (simp add: tryParseLine_def trim_def)

lemma flush_lines:
  assumes "\<forall>l\<in>set ls. LF \<notin> set l" and "buffer st = butlast (terminated ls)"
  shows "flushNdjson parse st = \<lparr>buffer = [], videos = fold (tryParseLine parse) ls (videos st)\<rparr>"
proof (cases "buffer st = []")
  case True
  have "fold (tryParseLine parse) ls (videos st) = videos st"
  proof (cases ls)
    case Nil
    then show ?thesis by simp
  next
    case (Cons k ks)
    then have "terminated (butlast ls) @ last ls = []"
      using assms(2) True butlast_terminated[of ls] by simp
    then have "butlast ls = [] \<and> last ls = []"
      by (cases "butlast ls") (simp_all add: terminated_def)
    then have "ls = [[]]" using Cons by (metis append_butlast_last_id list.distinct(1) append_Nil)
    then show ?thesis by (simp add: tryParseLine_empty)
  qed
  then show ?thesis using True by (simp add: flushNdjson_def)
next
  case False
  then have ne: "ls \<noteq> []" using assms(2) by (auto simp: terminated_def)
  have b: "buffer st = terminated (butlast ls) @ last ls"
    using assms(2) butlast_terminated[OF ne] by simp
  have "split_lines [] (buffer st) = map strip_cr (butlast ls) @ [last ls]"
    unfolding b using assms(1) ne
    by (intro split_lines_terminated) (auto dest: in_set_butlastD)
  then have "fold (tryParseLine parse) (split_lines [] (buffer st)) (videos st)
      = fold (tryParseLine parse) (butlast ls @ [last ls]) (videos st)"
    by (simp add: fold_tryParseLine_strip)
  then show ?thesis using False ne by (simp add: flushNdjson_def)
qed

lemma parsed_records_lines:
  assumes lines: "\<forall>l\<in>set ls. LF \<notin> set l"
    and payload: "concat chunks = terminated ls \<or> concat chunks = butlast (terminated ls)"
    and bound: "length (concat chunks) \<le> MAX_BUFFER_CHARS"
  shows "parsed_records parse chunks = fold (tryParseLine parse) ls []"
proof -
  have cs: "collect_stream parse chunks =
     \<lparr>buffer = fst (consume_loop parse (concat chunks) []),
      videos = snd (consume_loop parse (concat chunks) [])\<rparr>"
    using bound by (rule collect_stream_bounded)
  from payload show ?thesis
  proof
    assume "concat chunks = terminated ls"
    then have "consume_loop parse (concat chunks) [] = ([], fold (tryParseLine parse) ls [])"
      using consume_loop_lines[OF lines, of parse "[]" "[]"] by (simp add: consume_loop_no_nl)
    then show ?thesis by (simp add: parsed_records_def cs flushNdjson_def)
  next
    assume p: "concat chunks = butlast (terminated ls)"
    show ?thesis
    proof (cases "ls = []")
      case True
      then have "concat chunks = []" using p by (simp add: terminated_def)
      then have "consume_loop parse (concat chunks) [] = ([], [])"
        by (simp only: consume_loop_no_nl list.set empty_iff not_False_eq_True)
      then show ?thesis using True
        by (simp add: parsed_records_def cs flushNdjson_def)
    next
      case False
      have l1: "\<forall>l\<in>set (butlast ls). LF \<notin> set l" using lines by (auto dest: in_set_butlastD)
      have l2: "LF \<notin> set (last ls)" using lines False by simp
      have "concat chunks = terminated (butlast ls) @ last ls"
        using p butlast_terminated[OF False] by simp
      then have r: "consume_loop parse (concat chunks) [] = (last ls, fold (tryParseLine parse) (butlast ls) [])"
        using consume_loop_lines[OF l1, of parse "last ls" "[]"] l2 by (simp add: consume_loop_no_nl)
      have "flushNdjson parse \<lparr>buffer = last ls, videos = fold (tryParseLine parse) (butlast ls) []\<rparr>
          = \<lparr>buffer = [], videos = fold (tryParseLine parse) [last ls] (fold (tryParseLine parse) (butlast ls) [])\<rparr>"
        using flush_lines[of "[last ls]" "\<lparr>buffer = last ls, videos = fold (tryParseLine parse) (butlast ls) []\<rparr>" parse] l2
        by (simp add: terminated_def)
      then have "parsed_records parse chunks = fold (tryParseLine parse) (butlast ls @ [last ls]) []"
        by (simp add: parsed_records_def cs r)
      then show ?thesis using False by simp
    qed
  qed
qed



lemma trim_padded_line: "trim (padded_line n) = ascii ''{}''"
proof -
  have "dropWhile is_ws (replicate n 0x20 @ ascii ''}{'') = dropWhile is_ws (ascii ''}{'')"
    by (rule dropWhile_append2) (simp add: is_ws_def)
  then show ?thesis by (simp add: padded_line_def trim_def is_ws_def ascii_def)
qed

lemma parseVideoInfo_empty: "parseVideoInfo (JObj []) = Inr unknown_video"
  by (simp add: parseVideoInfo_def js_or_def unknown_video_def)

lemma tryParseLine_padded: "tryParseLine parse_empty_object (padded_line n) vs = vs @ [unknown_video]"
  by (simp add: tryParseLine_def trim_padded_line parse_empty_object_def parseVideoInfo_empty
      Let_def ascii_def)


lemma tryParseLine_braces: "tryParseLine parse_empty_object (ascii ''{}'') vs = vs @ [unknown_video]"
  using tryParseLine_padded[of 0] by (simp add: padded_line_def)

lemma consume_overflow:
  "length (buffer st @ chunk) > MAX_BUFFER_CHARS \<Longrightarrow> consumeNdjson parse chunk st = st\<lparr>buffer := []\<rparr>"
  by (simp add: consumeNdjson_def)

lemma consume_fits:
  "length (buffer st @ chunk) \<le> MAX_BUFFER_CHARS \<Longrightarrow>
   consumeNdjson parse chunk st =
     \<lparr>buffer = fst (consume_loop parse (buffer st @ chunk) (videos st)),
      videos = snd (consume_loop parse (buffer st @ chunk) (videos st))\<rparr>"
  by (simp add: consumeNdjson_def Let_def split: prod.splits)


subsection \<open>Chunk boundaries\<close>







text \<open>A text of ASCII bytes decodes byte by byte, and can be cut anywhere.\<close>

lemma utf8_step_ascii:
  "(b::byte) < 0x80 \<Longrightarrow> utf8_step utf8_init (unat b) = (utf8_init, [of_nat (unat b)])"
  by (simp add: utf8_step_def utf8_first_def utf8_init_def word_less_nat_alt)

lemma utf8_after_ascii: "list_all (\<lambda>b. b < 0x80) buf \<Longrightarrow> utf8_after utf8_init buf = utf8_init"
  by (induction buf) (simp_all add: utf8_step_ascii)

lemma whole_sequences_ascii: "list_all (\<lambda>b. b < 0x80) buf \<Longrightarrow> whole_sequences buf"
proof -
  assume "list_all (\<lambda>b. b < 0x80) buf"
  then have "utf8_after utf8_init buf = utf8_init" by (rule utf8_after_ascii)
  then show ?thesis by (simp add: whole_sequences_def) (simp add: utf8_init_def)
qed

lemma whole_sequences_ascii_chunks:
  "list_all (\<lambda>b. b < 0x80) (concat chunks) \<Longrightarrow> list_all whole_sequences chunks"
  by (induction chunks) (simp_all add: whole_sequences_ascii)






subsection \<open>The buffer bound\<close>

text \<open>
  C3 at a failing input: the buffer holds 4999999 characters of an unfinished line and the
  next chunk brings the end of that line and one more complete line. The buffered text
  contains two delimiters, yet the bound empties the buffer and no line is emitted.
\<close>

theorem buffer_bound_discards_complete_lines:
  "LF \<in> set (filler 4999999 @ ascii ''a'' @ [LF] @ ascii ''{}'' @ [LF]) \<and>
   collect_stream parse_empty_object [filler 4999999] = \<lparr>buffer = filler 4999999, videos = []\<rparr> \<and>
   consumeNdjson parse_empty_object (ascii ''a'' @ [LF] @ ascii ''{}'' @ [LF]) \<lparr>buffer = filler 4999999, videos = []\<rparr>
     = \<lparr>buffer = [], videos = []\<rparr> \<and>
   parsed_records parse_empty_object [filler 4999999, ascii ''a'' @ [LF] @ ascii ''{}'' @ [LF]] = []"
proof -
  let ?init = "\<lparr>buffer = [], videos = []\<rparr>"
  let ?st = "\<lparr>buffer = filler 4999999, videos = []\<rparr>"
  have len: "length (filler 4999999) = 4999999" by (simp add: filler_def)
  have nonl: "LF \<notin> set (filler 4999999)" by (simp add: filler_def)
  have 1: "consumeNdjson parse_empty_object (filler 4999999) ?init = ?st"
    by (subst consume_fits) (simp_all add: len MAX_BUFFER_CHARS_def consume_loop_no_nl nonl)
  have 2: "consumeNdjson parse_empty_object (ascii ''a'' @ [LF] @ ascii ''{}'' @ [LF]) ?st = ?init"
    by (subst consume_overflow) (simp_all add: len MAX_BUFFER_CHARS_def)
  show ?thesis
    using 1 2 by (simp add: parsed_records_def collect_stream_def flushNdjson_def)
qed

subsection \<open>Exit codes\<close>

text \<open>
  C4: exit code zero resolves with the parsed records, whatever their number; another
  exit code (or none) with at least one parsed record resolves with exactly these
  records; another exit code with no record rejects with the exit code.
\<close>

theorem exit_classification:
  "(code = Some 0 \<longrightarrow>
      searchYouTube_run parse chunks code = Inr (parsed_records parse chunks)) \<and>
   (code \<noteq> Some 0 \<and> parsed_records parse chunks \<noteq> [] \<longrightarrow>
      searchYouTube_run parse chunks code = Inr (parsed_records parse chunks)) \<and>
   (code \<noteq> Some 0 \<and> parsed_records parse chunks = [] \<longrightarrow>
      searchYouTube_run parse chunks code = Inl (ToolExecutionFailed code))"
  by (simp add: searchYouTube_run_def on_close_def parsed_records_def Let_def)

lemma records_one_line: "parsed_records parse_empty_object [ascii ''{}'' @ [LF]] = [unknown_video]"
  using parsed_records_lines[of "[ascii ''{}'']" "[ascii ''{}'' @ [LF]]" parse_empty_object]
    tryParseLine_braces[of "[]"]
  by (simp add: terminated_def MAX_BUFFER_CHARS_def ascii_def)

lemma records_no_output: "parsed_records parse_empty_object [] = []"
  by (simp add: parsed_records_def collect_stream_def flushNdjson_def)

theorem exit_classification_witness:
  "searchYouTube_run parse_empty_object [] (Some 0) = Inr [] \<and>
   searchYouTube_run parse_empty_object [ascii ''{}'' @ [LF]] (Some 1) = Inr [unknown_video] \<and>
   searchYouTube_run parse_empty_object [] (Some 1) = Inl (ToolExecutionFailed (Some 1))"
  using exit_classification[of "Some 0" parse_empty_object "[]"]
    exit_classification[of "Some 1" parse_empty_object "[ascii ''{}'' @ [LF]]"]
    exit_classification[of "Some 1" parse_empty_object "[]"]
    records_one_line records_no_output
  by simp

subsection \<open>The last line\<close>


lemma collect_stream_rest: "LF \<notin> set (buffer (collect_stream parse chunks))"
proof -
  have "LF \<notin> set (buffer st) \<Longrightarrow> LF \<notin> set (buffer (fold (consumeNdjson parse) chunks st))" for st
  proof (induction chunks arbitrary: st)
    case Nil
    then show ?case by simp
  next
    case (Cons c cs)
    have "LF \<notin> set (buffer (consumeNdjson parse c st))"
      using consume_loop_rest[of parse "buffer st @ c" "videos st"]
      by (auto simp: consumeNdjson_def Let_def split: prod.splits)
    then show ?case using Cons.IH by simp
  qed
  then show ?thesis by (simp add: collect_stream_def)
qed




section \<open>Properties of the record mapper\<close>

lemma viewCount_of_number:
  "parseVideoInfo data = Inr v \<Longrightarrow> field data (ascii ''view_count'') = JNum n \<Longrightarrow> viewCount v = JNum n"
  by (auto simp: parseVideoInfo_def js_or_def split: if_splits)

lemma viewCount_default:
  "parseVideoInfo data = Inr v \<Longrightarrow> \<not> truthy (field data (ascii ''view_count'')) \<Longrightarrow> viewCount v = JNum 0"
  by (auto simp: parseVideoInfo_def js_or_def split: if_splits)

lemma parseVideoInfo_raises:
  "parseVideoInfo data = Inl e \<longleftrightarrow>
     data = JUndefined \<or> data = JNull \<or>
     (truthy (field data (ascii ''upload_date'')) \<and>
      \<not> (has_slice (field data (ascii ''upload_date'')) \<and>
         date_template_ok (field data (ascii ''upload_date'')))) \<or>
     (\<not> truthy (field data (ascii ''webpage_url'')) \<and> \<not> converts (field data (ascii ''id''))) \<or>
     (truthy (field data (ascii ''duration'')) \<and> \<not> converts (field data (ascii ''duration'')))"
  by (cases e) (auto simp: parseVideoInfo_def)

text \<open>
  C9 at a failing input: the view count of the raw object is the string \<^verbatim>\<open>"1000"\<close>,
  which is no number; the mapped record keeps the string where the claim wants zero.
  (\<^verbatim>\<open>data.view_count || 0\<close> replaces falsy values only; the other variant of the
  mapper, in \<^verbatim>\<open>searchYouTubeV2\<close>, tests \<^verbatim>\<open>typeof\<close> and does give zero.)
\<close>

theorem viewCount_keeps_truthy_non_numbers:
  "parseVideoInfo (JObj [(ascii ''id'', JStr (ascii ''abc'')), (ascii ''view_count'', JStr (ascii ''1000''))])
   = Inr \<lparr>vi_id = JStr (ascii ''abc''), title = JStr (ascii ''Unknown Title''), channel = JStr (ascii ''Unknown Channel''),
          channelUrl = JUndefined, viewCount = JStr (ascii ''1000''), likeCount = JUndefined,
          thumbnail = JUndefined, description = JUndefined\<rparr>"
  by (simp add: parseVideoInfo_def js_or_def ascii_def)

section \<open>Properties of the argument list\<close>

lemma maxAgeDays_gives_cutoff:
  "maxAgeDays options = Present (Some n) \<Longrightarrow> n \<noteq> 0 \<Longrightarrow>
   \<exists>args. searchArgs rt keyword options = args @ [''--dateafter'', dateStr rt n]"
  by (simp add: searchArgs_def spread_def spread_prop_def get_def truthy_num_def Let_def)

lemma dateRange_needs_maxAgeDays_off:
  "maxAgeDays options = Present None \<or> maxAgeDays options = Present (Some 0) \<Longrightarrow>
   dateRange options = Present (Some r) \<Longrightarrow>
   \<exists>args. searchArgs rt keyword options = args @ [''--dateafter'', dateFilter r]"
  by (auto simp: searchArgs_def spread_def spread_prop_def get_def truthy_num_def Let_def)

text \<open>
  C8 at a failing input: the caller supplies the bucket \<^verbatim>\<open>today\<close> and no maximum
  age. The default \<^verbatim>\<open>maxAgeDays: 7\<close> of \<^verbatim>\<open>DEFAULT_OPTIONS\<close> takes the first branch, and
  the argument list ends with the date seven days back, not with the token of the bucket.
\<close>

theorem dateRange_alone_is_overridden:
  "searchArgs rt keyword \<lparr>limit = Absent, sort_by = Absent, dateRange = Present (Some Today),
       maxAgeDays = Absent\<rparr>
   = [''ytsearchdate10:'' @ keyword, ''--dump-json'', ''--flat-playlist'', ''--no-warnings'',
      ''--quiet'', ''--playlist-end'', ''10'', ''--dateafter'', dateStr rt 7]"
proof -
  have "digits 10 = ''10''"
    by (subst digits.simps, subst digits.simps) simp
  then show ?thesis
    by (simp add: searchArgs_def spread_def spread_prop_def DEFAULT_OPTIONS_def get_def
        truthy_num_def String_of_def Let_def)
qed

section \<open>Properties of the collector\<close>

text \<open>
  C7: for a keyword that exists and has \<^verbatim>\<open>isActive = false\<close>, \<open>collectByKeyword\<close>
  returns at once with \<^verbatim>\<open>videosCollected = 0\<close> and the marker
  \<^verbatim>\<open>Keyword is inactive\<close>; the state, and with it the list of invocations of the
  search, is unchanged.
\<close>

theorem inactive_keyword_short_circuit:
  assumes "find (\<lambda>k. kw_id k = kid) (tbl_keywords (db w)) = Some keyword"
    and "kw_isActive keyword = Some False"
  shows "\<exists>r w'. collectByKeyword env kid maxn w = Inr (r, w') \<and>
     searchCalls w' = searchCalls w \<and> w' = w \<and>
     videosCollected r = 0 \<and> errors r = Some ''Keyword is inactive''"
  using assms by (simp add: collectByKeyword_def)

theorem inactive_keyword_short_circuit_witness:
  "find (\<lambda>k. kw_id k = 3) (tbl_keywords (db (world_of [kw 1 ''ok'' True, kw 3 ''off'' False])))
     = Some (kw 3 ''off'' False) \<and>
   kw_isActive (kw 3 ''off'' False) = Some False \<and>
   (\<exists>r. collectByKeyword mock_services 3 10 (world_of [kw 1 ''ok'' True, kw 3 ''off'' False])
          = Inr (r, world_of [kw 1 ''ok'' True, kw 3 ''off'' False]) \<and>
        videosCollected r = 0 \<and> errors r = Some ''Keyword is inactive'') \<and>
   searchCalls (world_of [kw 1 ''ok'' True, kw 3 ''off'' False]) = []"
proof -
  have h1: "find (\<lambda>k. kw_id k = 3) (tbl_keywords (db (world_of [kw 1 ''ok'' True, kw 3 ''off'' False])))
     = Some (kw 3 ''off'' False)"
    by (simp add: world_of_def kw_def)
  have h2: "kw_isActive (kw 3 ''off'' False) = Some False" by (simp add: kw_def)
  have h3: "searchCalls (world_of [kw 1 ''ok'' True, kw 3 ''off'' False]) = []"
    by (simp add: world_of_def)
  show ?thesis
    using h1 h2 h3 inactive_keyword_short_circuit[OF h1 h2, of mock_services 10] by blast
qed

lemma collectByKeyword_Inr:
  "collectByKeyword env kid maxn w = Inr (r, w') \<Longrightarrow>
   keywordId r = kid \<and> tbl_keywords (db w') = tbl_keywords (db w)"
  by (auto simp: collectByKeyword_def Let_def split: option.splits if_splits sum.splits)

lemma collectByKeyword_total:
  "k \<in> set (tbl_keywords (db w)) \<Longrightarrow> \<exists>r w'. collectByKeyword env (kw_id k) maxn w = Inr (r, w')"
proof -
  assume "k \<in> set (tbl_keywords (db w))"
  then have "find (\<lambda>k'. kw_id k' = kw_id k) (tbl_keywords (db w)) \<noteq> None"
    by (auto simp: find_None_iff)
  then show ?thesis
    by (auto simp: collectByKeyword_def Let_def split: option.splits if_splits sum.splits)
qed

lemma collect_loop_ok:
  "set ks \<subseteq> set (tbl_keywords (db w)) \<Longrightarrow>
   \<exists>new w'. collect_loop env maxn ks (rs, n, h) w =
       Inr ((rs @ new, n + sum_list (map videosCollected new),
             h \<or> list_ex (\<lambda>r. truthy_str (errors r)) new), w') \<and>
     map keywordId new = map kw_id ks \<and>
     tbl_keywords (db w') = tbl_keywords (db w)"
proof (induction ks arbitrary: rs n h w)
  case Nil
  show ?case by simp
next
  case (Cons k ks)
  from Cons.prems have "k \<in> set (tbl_keywords (db w))" by simp
  then obtain r w1 where c: "collectByKeyword env (kw_id k) maxn w = Inr (r, w1)"
    using collectByKeyword_total by blast
  then have r: "keywordId r = kw_id k" and kws: "tbl_keywords (db w1) = tbl_keywords (db w)"
    using collectByKeyword_Inr by blast+
  have "set ks \<subseteq> set (tbl_keywords (db w1))" using Cons.prems kws by simp
  from Cons.IH[OF this, of "rs @ [r]" "n + videosCollected r" "h \<or> truthy_str (errors r)"]
  obtain new w' where
    l: "collect_loop env maxn ks (rs @ [r], n + videosCollected r, h \<or> truthy_str (errors r)) w1 =
       Inr (((rs @ [r]) @ new, (n + videosCollected r) + sum_list (map videosCollected new),
             (h \<or> truthy_str (errors r)) \<or> list_ex (\<lambda>r. truthy_str (errors r)) new), w')"
    and m: "map keywordId new = map kw_id ks"
    and k: "tbl_keywords (db w') = tbl_keywords (db w1)"
    by blast
  have "collect_loop env maxn (k # ks) (rs, n, h) w =
       Inr ((rs @ (r # new), n + sum_list (map videosCollected (r # new)),
             h \<or> list_ex (\<lambda>r. truthy_str (errors r)) (r # new)), w')"
    using c l by (simp add: add.assoc)
  moreover have "map keywordId (r # new) = map kw_id (k # ks)" using r m by simp
  moreover have "tbl_keywords (db w') = tbl_keywords (db w)" using k kws by simp
  ultimately show ?case by blast
qed

text \<open>
  C10: when the preflight succeeds, \<open>collectAll\<close> completes, and its result has one
  entry for each active keyword in the order of iteration, \<^verbatim>\<open>totalKeywords\<close> equal to
  the number of active keywords and to the length of \<^verbatim>\<open>results\<close>, and
  \<^verbatim>\<open>totalVideos\<close> equal to the sum of \<^verbatim>\<open>videosCollected\<close> over the entries.
\<close>

theorem collectAll_result_consistent:
  assumes "checkYtDlp env"
  shows "\<exists>res w'. collectAll env maxn w = Inr (res, w') \<and>
     map keywordId (results res) = map kw_id (filter (\<lambda>k. kw_isActive k = Some True) (tbl_keywords (db w))) \<and>
     totalKeywords res = length (filter (\<lambda>k. kw_isActive k = Some True) (tbl_keywords (db w))) \<and>
     length (results res) = totalKeywords res \<and>
     totalVideos res = sum_list (map videosCollected (results res))"
proof -
  let ?act = "filter (\<lambda>k. kw_isActive k = Some True) (tbl_keywords (db w))"
  show ?thesis
  proof (cases "?act = []")
    case True
    then show ?thesis using assms by (simp add: collectAll_def)
  next
    case False
    have "set ?act \<subseteq> set (tbl_keywords (db w))" by auto
    from collect_loop_ok[OF this, of env maxn "[]" 0 False]
    obtain new w1 where
      l: "collect_loop env maxn ?act ([], 0, False) w =
         Inr ((new, sum_list (map videosCollected new), list_ex (\<lambda>r. truthy_str (errors r)) new), w1)"
      and m: "map keywordId new = map kw_id ?act"
      by auto
    have len: "length new = length ?act" using m by (metis length_map)
    show ?thesis
      using assms False l m len by (simp add: collectAll_def Let_def)
  qed
qed

theorem collectAll_result_consistent_witness:
  "checkYtDlp mock_services \<and>
   (\<exists>res w'. collectAll mock_services 10 (world_of [kw 1 ''ok'' True, kw 2 ''bad'' True, kw 3 ''off'' False])
        = Inr (res, w') \<and>
      map keywordId (results res) = [1, 2] \<and> totalKeywords res = 2 \<and>
      length (results res) = totalKeywords res \<and>
      totalVideos res = sum_list (map videosCollected (results res)))"
proof -
  let ?w = "world_of [kw 1 ''ok'' True, kw 2 ''bad'' True, kw 3 ''off'' False]"
  have h: "checkYtDlp mock_services" by (simp add: mock_services_def)
  have act: "filter (\<lambda>k. kw_isActive k = Some True) (tbl_keywords (db ?w))
      = [kw 1 ''ok'' True, kw 2 ''bad'' True]"
    by (simp add: world_of_def kw_def)
  have ids: "map kw_id [kw 1 ''ok'' True, kw 2 ''bad'' True] = [1, 2]" by (simp add: kw_def)
  from collectAll_result_consistent[OF h, of 10 ?w]
  obtain res w' where "collectAll mock_services 10 ?w = Inr (res, w')"
    and "map keywordId (results res) = [1, 2]" and "totalKeywords res = 2"
    and "length (results res) = totalKeywords res"
    and "totalVideos res = sum_list (map videosCollected (results res))"
    unfolding act ids by auto
  then show ?thesis using h by (intro conjI exI[of _ res] exI[of _ w']) simp_all
qed

lemma run_classification_example:
  "\<exists>w'. collectAll mock_services 10 (world_of [kw 1 ''ok'' True, kw 2 ''bad'' True])
     = Inr (\<lparr>startedAt = 1000, completedAt = 5000, totalKeywords = 2, totalVideos = 3,
             results = [\<lparr>keywordId = 1, keywordName = ''ok'', videosCollected = 3, errors = None\<rparr>,
                        \<lparr>keywordId = 2, keywordName = ''bad'', videosCollected = 0,
                          errors = Some ''yt-dlp exited with code 1''\<rparr>],
             status = Partial\<rparr>, w')"
  by (simp add: collectAll_def collectByKeyword_def mock_services_def world_of_def kw_def
      Let_def save_video_def classify_def truthy_str_def)

text \<open>
  C1 at a failing input: one active keyword, whose search fails. No video is collected
  and an error is recorded, and the run is classified \<^verbatim>\<open>partial\<close>, where the claim
  says \<^verbatim>\<open>failed\<close>.
\<close>

theorem all_keywords_failed_is_partial:
  "\<exists>w'. collectAll mock_services 10 (world_of [kw 2 ''bad'' True])
     = Inr (\<lparr>startedAt = 1000, completedAt = 5000, totalKeywords = 1, totalVideos = 0,
             results = [\<lparr>keywordId = 2, keywordName = ''bad'', videosCollected = 0,
                          errors = Some ''yt-dlp exited with code 1''\<rparr>],
             status = Partial\<rparr>, w')"
  by (simp add: collectAll_def collectByKeyword_def mock_services_def world_of_def kw_def
      Let_def save_video_def classify_def truthy_str_def)

section \<open>Properties of the trend aggregator\<close>

lemma step_tables [simp]:
  "tbl_videos (updateTrends_step today now k d) = tbl_videos d"
  "tbl_keywords (updateTrends_step today now k d) = tbl_keywords d"
  by (simp_all add: updateTrends_step_def Let_def split: list.splits option.splits)

lemma todayVideos_step [simp]:
  "todayVideos (updateTrends_step today now k d) keyword today' = todayVideos d keyword today'"
  by (simp add: todayVideos_def)

lemma todayVideos_same_id:
  "kw_id k = kw_id k' \<Longrightarrow> todayVideos d k today = todayVideos d k' today"
  by (simp add: todayVideos_def)

lemma trend_key_same_id:
  "kw_id k = kw_id k' \<Longrightarrow> trend_key k today = trend_key k' today"
  by (simp add: trend_key_def fun_eq_iff)

lemma set_where_id_keeps [simp]:
  "t_id (set_where_id e a b c f t) = t_id t"
  "t_keywordId (set_where_id e a b c f t) = t_keywordId t"
  "t_date (set_where_id e a b c f t) = t_date t"
  "t_period (set_where_id e a b c f t) = t_period t"
  by (simp_all add: set_where_id_def)

lemma trend_key_set_where_id [simp]:
  "trend_key k today (set_where_id e a b c f t) = trend_key k today t"
  by (simp add: trend_key_def)

lemma step_keyed: "trends_keyed d \<Longrightarrow> trends_keyed (updateTrends_step today now k d)"
proof -
  assume wf: "trends_keyed d"
  have fresh: "next_trend_id d \<notin> t_id ` set (tbl_trends d)"
    using wf by (auto simp: trends_keyed_def list_all_iff)
  have mono: "list_all (\<lambda>t. t_id t < Suc (next_trend_id d)) (tbl_trends d)"
    using wf by (auto simp: trends_keyed_def list_all_iff)
  show ?thesis
    using wf fresh mono
    by (auto simp: updateTrends_step_def Let_def trends_keyed_def comp_def list_all_iff
        split: list.splits option.splits)
qed

lemma find_map_keep:
  "(\<And>x. P (f x) = P x) \<Longrightarrow> find P (map f xs) = map_option f (find P xs)"
  by (induction xs) auto

lemma find_in: "find P xs = Some x \<Longrightarrow> x \<in> set xs \<and> P x"
  by (induction xs) (auto split: if_splits)

lemma keyed_unique:
  "trends_keyed d \<Longrightarrow> x \<in> set (tbl_trends d) \<Longrightarrow> y \<in> set (tbl_trends d) \<Longrightarrow>
   t_id x = t_id y \<Longrightarrow> x = y"
  by (auto simp: trends_keyed_def distinct_map inj_on_def)

lemma find_append_None: "find P xs = None \<Longrightarrow> find P (xs @ ys) = find P ys"
  by (induction xs) (auto split: if_splits)

lemma find_append_Some: "find P xs = Some x \<Longrightarrow> find P (xs @ ys) = Some x"
  by (induction xs) (auto split: if_splits)

lemma todayVideos_updates [simp]:
  "todayVideos (d\<lparr>tbl_trends := x\<rparr>) k today = todayVideos d k today"
  "todayVideos (d\<lparr>next_trend_id := y\<rparr>) k today = todayVideos d k today"
  by (simp_all add: todayVideos_def)

lemma stored_set_where_id:
  "vs \<noteq> [] \<Longrightarrow>
   stored vs (set_where_id (t_id row) (int (length vs))
      (foldl (\<lambda>sum v. js_add sum (js_views v)) 0 vs)
      (Math_round (js_div (foldl (\<lambda>sum v. js_add sum (js_views v)) 0 vs) (length vs)))
      (v_id (topVideo (hd vs) (tl vs))) row)"
  by (simp add: stored_def set_where_id_def)

lemma step_establishes:
  "agg_ok today k (updateTrends_step today now k d)"
proof (cases "todayVideos d k today")
  case Nil
  then show ?thesis by (simp add: agg_ok_def)
next
  case (Cons v0 rest)
  let ?vs = "v0 # rest"
  show ?thesis
  proof (cases "find (trend_key k today) (tbl_trends d)")
    case None
    then show ?thesis
      using Cons
      by (simp add: agg_ok_def updateTrends_step_def Let_def find_append_None stored_def trend_key_def)
  next
    case (Some ex)
    have "find (trend_key k today) (map (set_where_id (t_id ex) a b c f) (tbl_trends d))
        = Some (set_where_id (t_id ex) a b c f ex)" for a b c f
      using Some by (simp add: find_map_keep)
    then show ?thesis
      using Cons Some stored_set_where_id[of ?vs ex]
      by (simp add: agg_ok_def updateTrends_step_def Let_def)
  qed
qed

lemma step_preserves:
  assumes wf: "trends_keyed d" and ok: "agg_ok today k d"
  shows "agg_ok today k (updateTrends_step today now k' d)"
proof (cases "todayVideos d k today = []")
  case True
  then show ?thesis by (simp add: agg_ok_def)
next
  case False
  then obtain row where row: "find (trend_key k today) (tbl_trends d) = Some row"
    and st: "stored (todayVideos d k today) row"
    using ok by (auto simp: agg_ok_def split: option.splits)
  show ?thesis
  proof (cases "todayVideos d k' today")
    case Nil
    then show ?thesis using ok by (simp add: updateTrends_step_def)
  next
    case (Cons v0 rest)
    show ?thesis
    proof (cases "find (trend_key k' today) (tbl_trends d)")
      case None
      then show ?thesis
        using Cons row st False
        by (simp add: agg_ok_def updateTrends_step_def Let_def find_append_Some)
    next
      case (Some ex)
      let ?f = "set_where_id (t_id ex) (int (length (v0 # rest)))
          (foldl (\<lambda>sum v. js_add sum (js_views v)) 0 (v0 # rest))
          (Math_round (js_div (foldl (\<lambda>sum v. js_add sum (js_views v)) 0 (v0 # rest)) (length (v0 # rest))))
          (v_id (topVideo v0 rest))"
      have step: "updateTrends_step today now k' d = d\<lparr>tbl_trends := map ?f (tbl_trends d)\<rparr>"
        using Cons Some by (simp add: updateTrends_step_def Let_def)
      have found: "find (trend_key k today) (map ?f (tbl_trends d)) = Some (?f row)"
        using row by (simp add: find_map_keep)
      have "stored (todayVideos d k today) (?f row)"
      proof (cases "t_id row = t_id ex")
        case True
        have re: "row = ex"
          using keyed_unique[OF wf _ _ True] find_in[OF row] find_in[OF Some] by blast
        have "trend_key k' today row" using re find_in[OF Some] by simp
        moreover have "trend_key k today row" using find_in[OF row] by simp
        ultimately have "kw_id k = kw_id k'" by (simp add: trend_key_def)
        then have same: "todayVideos d k today = v0 # rest"
          using Cons todayVideos_same_id by metis
        show ?thesis
          unfolding same using stored_set_where_id[of "v0 # rest" ex] re by simp
      next
        case False
        then show ?thesis using st by (simp add: set_where_id_def)
      qed
      then show ?thesis
        using False found by (simp add: agg_ok_def step)
    qed
  qed
qed

lemma fold_tables [simp]:
  "tbl_videos (fold (updateTrends_step today now) ks d) = tbl_videos d"
  "tbl_keywords (fold (updateTrends_step today now) ks d) = tbl_keywords d"
  by (induction ks arbitrary: d) simp_all

lemma fold_keyed:
  "trends_keyed d \<Longrightarrow> trends_keyed (fold (updateTrends_step today now) ks d)"
  by (induction ks arbitrary: d) (simp_all add: step_keyed)

lemma fold_establishes:
  "trends_keyed d \<Longrightarrow> agg_ok today k d \<or> k \<in> set ks \<Longrightarrow>
   agg_ok today k (fold (updateTrends_step today now) ks d)"
proof (induction ks arbitrary: d)
  case Nil
  then show ?case by simp
next
  case (Cons k' ks)
  have wf1: "trends_keyed (updateTrends_step today now k' d)"
    using Cons.prems(1) by (rule step_keyed)
  have "agg_ok today k (updateTrends_step today now k' d) \<or> k \<in> set ks"
  proof (cases "agg_ok today k d")
    case True
    then show ?thesis using step_preserves[OF Cons.prems(1)] by blast
  next
    case False
    then have "k = k' \<or> k \<in> set ks" using Cons.prems(2) by auto
    then show ?thesis using step_establishes by blast
  qed
  from Cons.IH[OF wf1 this] show ?case by simp
qed

lemma step_fixpoint:
  assumes wf: "trends_keyed d" and ok: "agg_ok today k d"
  shows "updateTrends_step today now k d = d"
proof (cases "todayVideos d k today")
  case Nil
  then show ?thesis by (simp add: updateTrends_step_def)
next
  case (Cons v0 rest)
  then obtain row where row: "find (trend_key k today) (tbl_trends d) = Some row"
    and st: "stored (v0 # rest) row"
    using ok by (auto simp: agg_ok_def split: option.splits)
  let ?f = "set_where_id (t_id row) (int (length (v0 # rest)))
          (foldl (\<lambda>sum v. js_add sum (js_views v)) 0 (v0 # rest))
          (Math_round (js_div (foldl (\<lambda>sum v. js_add sum (js_views v)) 0 (v0 # rest)) (length (v0 # rest))))
          (v_id (topVideo v0 rest))"
  have "?f t = t" if "t \<in> set (tbl_trends d)" for t
  proof (cases "t_id t = t_id row")
    case True
    then have "t = row" using keyed_unique[OF wf that _ True] find_in[OF row] by blast
    then show ?thesis using st by (cases row) (simp add: stored_def set_where_id_def)
  next
    case False
    then show ?thesis by (simp add: set_where_id_def)
  qed
  then have "map ?f (tbl_trends d) = tbl_trends d" by (simp add: map_idI)
  then show ?thesis using Cons row by (simp add: updateTrends_step_def Let_def)
qed

lemma fold_fixpoint:
  "trends_keyed d \<Longrightarrow> \<forall>k\<in>set ks. agg_ok today k d \<Longrightarrow>
   fold (updateTrends_step today now) ks d = d"
  by (induction ks) (simp_all add: step_fixpoint)

lemma updateTrends_idempotent:
  assumes "trends_keyed d"
  shows "updateTrends today now' (updateTrends today now d) = updateTrends today now d"
proof -
  let ?d = "fold (updateTrends_step today now) (tbl_keywords d) d"
  have "trends_keyed ?d" using assms by (rule fold_keyed)
  moreover have "\<forall>k\<in>set (tbl_keywords d). agg_ok today k ?d"
    using assms fold_establishes by blast
  ultimately have "fold (updateTrends_step today now') (tbl_keywords d) ?d = ?d"
    by (rule fold_fixpoint)
  then show ?thesis by (simp add: updateTrends_def)
qed

lemma pow_nat_powi: "0 \<le> k \<Longrightarrow> (2::rat) ^ nat k = 2 powi k"
  by (simp add: power_int_def)

lemma bitlen_rat_bounds:
  assumes "0 < p"
  shows "(2::rat) powi (bitlen p - 1) \<le> of_int p" and "of_int p < (2::rat) powi (bitlen p)"
proof -
  have b: "1 \<le> bitlen p" using assms by (auto simp: bitlen_alt_def)
  have "(2::int) ^ nat (bitlen p - 1) \<le> p" "p < 2 ^ nat (bitlen p)"
    using bitlen_bounds[OF assms] by auto
  then have "rat_of_int (2 ^ nat (bitlen p - 1)) \<le> of_int p" "rat_of_int p < of_int (2 ^ nat (bitlen p))"
    by (simp_all only: of_int_le_iff of_int_less_iff)
  then show "(2::rat) powi (bitlen p - 1) \<le> of_int p" and "of_int p < (2::rat) powi (bitlen p)"
    using b by (simp_all add: pow_nat_powi)
qed

lemma binade_bounds:
  assumes "0 < x"
  shows "2 powi (binade x) \<le> x \<and> x < 2 powi (binade x + 1)"
proof -
  obtain p q where pq: "quotient_of x = (p, q)" by (cases "quotient_of x")
  have q: "0 < q" using pq quotient_of_denom_pos by blast
  have x: "x = of_int p / of_int q" using pq quotient_of_div by blast
  have p: "0 < p" using assms q x by (simp add: zero_less_divide_iff)
  define d where "d = bitlen p - bitlen q"
  define A where "A = (2::rat) powi (bitlen p - 1)"
  define B where "B = (2::rat) powi (bitlen q - 1)"
  have A: "0 < A" "A \<le> of_int p" "of_int p < 2 * A"
    using bitlen_rat_bounds[OF p] by (simp_all add: A_def power_int_diff)
  have B: "0 < B" "B \<le> of_int q" "of_int q < 2 * B"
    using bitlen_rat_bounds[OF q] by (simp_all add: B_def power_int_diff)
  have d: "2 powi d = A / B" "2 powi (d - 1) = A / (2 * B)" "2 powi (d + 1) = 2 * A / B"
    by (simp_all add: d_def A_def B_def power_int_diff power_int_add)
  have Q: "0 < rat_of_int q" using q by simp
  have lo: "2 powi (d - 1) < x"
  proof -
    have "A * of_int q < of_int p * (2 * B)"
      using A B Q by (meson mult_le_less_imp_less order_less_le_trans order_le_less)
    then have "A / (2 * B) < x" using A B Q by (simp add: x field_simps)
    then show ?thesis by (simp only: d)
  qed
  have hi: "x < 2 powi (d + 1)"
  proof -
    have "of_int p * B < 2 * A * of_int q"
      using A B Q by (meson mult_less_le_imp_less order_less_le_trans order_le_less)
    then have "x < 2 * A / B" using A B Q by (simp add: x field_simps)
    then show ?thesis by (simp only: d)
  qed
  show ?thesis
    using lo hi pq by (simp add: binade_def d_def Let_def)
qed


lemma rhe_bounds: "y - 1 / 2 \<le> of_int (round_half_even y)" "of_int (round_half_even y) \<le> y + 1 / 2"
proof -
  define f where "f = \<lfloor>y\<rfloor>"
  have f: "of_int f \<le> y" "y < of_int f + 1" unfolding f_def by linarith+
  have r: "round_half_even y = f \<and> y - of_int f \<le> 1 / 2 \<or> round_half_even y = f + 1 \<and> 1 / 2 \<le> y - of_int f"
    by (auto simp: round_half_even_def Let_def f_def[symmetric])
  show "y - 1 / 2 \<le> of_int (round_half_even y)"
    using r f by (elim disjE conjE) simp_all
  show "of_int (round_half_even y) \<le> y + 1 / 2"
    using r f by (elim disjE conjE) simp_all
qed

lemma rhe_of_int: "round_half_even (of_int k) = k"
  by (simp add: round_half_even_def)

lemma rhe_ge: "of_int a \<le> y \<Longrightarrow> a \<le> round_half_even y"
proof -
  assume "of_int a \<le> y"
  then have "rat_of_int a - 1 / 2 \<le> of_int (round_half_even y)"
    using rhe_bounds(1)[of y] by linarith
  then have "rat_of_int a < of_int (round_half_even y) + 1" by linarith
  then have "rat_of_int a < of_int (round_half_even y + 1)" by simp
  then have "a < round_half_even y + 1" by (simp only: of_int_less_iff)
  then show ?thesis by simp
qed

lemma rhe_lt: "y < of_int b - 1 / 2 \<Longrightarrow> round_half_even y < b"
proof -
  assume "y < of_int b - 1 / 2"
  then have "rat_of_int (round_half_even y) < of_int b"
    using rhe_bounds(2)[of y] by linarith
  then show ?thesis by (simp only: of_int_less_iff)
qed

lemma binade_lt:
  assumes "x \<noteq> 0" and "\<bar>x\<bar> < 2 ^ k"
  shows "binade \<bar>x\<bar> < int k"
proof -
  have "2 powi binade \<bar>x\<bar> \<le> \<bar>x\<bar>" using binade_bounds[of "\<bar>x\<bar>"] assms(1) by simp
  then have "(2::rat) powi binade \<bar>x\<bar> < 2 powi int k" using assms(2) by simp
  then show ?thesis by (rule power_int_le_imp_less_exp[rotated]) simp_all
qed

lemma to_double_small:
  assumes "x \<noteq> 0" and "\<bar>x\<bar> < 2 ^ 53"
  shows "\<exists>s. to_double x = of_int (round_half_even (x * 2 ^ s)) / 2 ^ s \<and>
             2 ^ 52 \<le> \<bar>x\<bar> * 2 ^ s \<and> (\<bar>x\<bar> < 2 ^ 52 \<longrightarrow> 0 < s)"
proof -
  define e where "e = binade \<bar>x\<bar>"
  have e: "e < 53" using binade_lt[OF assms] by (simp add: e_def)
  define s where "s = nat (52 - e)"
  have u: "(2::rat) powi (e - 52) = 1 / 2 ^ s"
    using e power_int_minus_divide[of "2::rat" "52 - e"] by (simp add: s_def power_int_nonneg_exp)
  have lo: "2 powi e \<le> \<bar>x\<bar>" using binade_bounds[of "\<bar>x\<bar>"] assms(1) by (simp add: e_def)
  have "(2::rat) powi 52 = 2 powi e * 2 powi (52 - e)"
    by (simp add: power_int_add[symmetric])
  also have "\<dots> = 2 powi e * 2 ^ s" using e by (simp add: s_def power_int_nonneg_exp)
  also have "\<dots> \<le> \<bar>x\<bar> * 2 ^ s" using lo by simp
  finally have big: "2 ^ 52 \<le> \<bar>x\<bar> * 2 ^ s" by simp
  have pos: "\<bar>x\<bar> < 2 ^ 52 \<longrightarrow> 0 < s"
  proof
    assume "\<bar>x\<bar> < 2 ^ 52"
    then have "e < 52" using binade_lt[OF assms(1), of 52] by (simp add: e_def)
    then show "0 < s" by (simp add: s_def)
  qed
  have "to_double x = of_int (round_half_even (x * 2 ^ s)) / 2 ^ s"
    using assms(1) by (simp add: to_double_def Let_def e_def[symmetric] u)
  then show ?thesis using big pos by blast
qed

lemma double_of_int_exact:
  assumes "\<bar>z\<bar> < 2 ^ 53"
  shows "double_of_int z = z"
proof (cases "z = 0")
  case True
  then show ?thesis by (simp add: double_of_int_def to_double_def)
next
  case False
  have "\<bar>rat_of_int z\<bar> < of_int (2 ^ 53)" using assms by (simp only: of_int_abs[symmetric] of_int_less_iff)
  then have "\<bar>rat_of_int z\<bar> < 2 ^ 53" by simp
  then obtain s where s: "to_double (of_int z) = of_int (round_half_even (of_int z * 2 ^ s)) / 2 ^ s"
    using to_double_small[of "of_int z"] False by auto
  have "rat_of_int z * 2 ^ s = of_int (z * 2 ^ s)" by simp
  then have "round_half_even (rat_of_int z * 2 ^ s) = z * 2 ^ s" by (simp only: rhe_of_int)
  then have "to_double (of_int z) = of_int z" using s by simp
  then show ?thesis by (simp add: double_of_int_def)
qed

lemma Math_round_js_div:
  assumes n: "0 < n" and t: "\<bar>t\<bar> < 2 ^ 52"
  shows "Math_round (js_div t n) = (2 * t + int n) div (2 * int n)"
proof (cases "t = 0")
  case True
  have "\<lfloor>(1::rat) / 2\<rfloor> = 0" by (rule floor_unique) simp_all
  then show ?thesis using True n by (simp add: js_div_def to_double_def Math_round_def)
next
  case False
  define q :: rat where "q = of_int t / of_nat n"
  define N :: rat where "N = of_nat n"
  have N: "1 \<le> N" using n by (simp add: N_def)
  have q0: "q \<noteq> 0" using False n by (simp add: q_def)
  have T: "\<bar>rat_of_int t\<bar> < 2 ^ 52"
  proof -
    have "\<bar>rat_of_int t\<bar> < of_int (2 ^ 52)" using t by (simp only: of_int_abs[symmetric] of_int_less_iff)
    then show ?thesis by simp
  qed
  have qT: "\<bar>q\<bar> * N = \<bar>rat_of_int t\<bar>" using N by (simp add: q_def N_def abs_divide)
  have "\<bar>q\<bar> \<le> \<bar>q\<bar> * N" using N by (simp add: mult_le_cancel_left1)
  then have q52: "\<bar>q\<bar> < 2 ^ 52" using qT T by linarith
  then have "\<bar>q\<bar> < 2 ^ 53" by simp
  then obtain s where s: "to_double q = of_int (round_half_even (q * 2 ^ s)) / 2 ^ s"
    and big: "2 ^ 52 \<le> \<bar>q\<bar> * 2 ^ s" and s0: "0 < s"
    using to_double_small[OF q0] q52 by blast
  obtain s' where s': "s = Suc s'" using s0 by (cases s) auto
  define M :: int where "M = 2 ^ s'"
  have M: "0 < M" by (simp add: M_def)
  have pw: "(2::rat) ^ s = 2 * of_int M" by (simp add: s' M_def)
  define y where "y = q * (2 * of_int M)"
  define r where "r = round_half_even y"
  define k where "k = (2 * t + int n) div (2 * int n)"
  have Nsmall: "N < 2 * of_int M"
  proof -
    have "2 ^ 52 * N \<le> \<bar>q\<bar> * (2 * of_int M) * N" using big N by (simp add: pw)
    also have "\<dots> = \<bar>rat_of_int t\<bar> * (2 * of_int M)" using qT by (simp add: algebra_simps)
    also have "\<dots> < 2 ^ 52 * (2 * of_int M)" using T M by simp
    finally show ?thesis by simp
  qed
  have rnd: "Math_round (to_double q) = (r + M) div (2 * M)"
  proof -
    have "to_double q + 1 / 2 = of_int (r + M) / of_int (2 * M)"
      using M by (simp add: s pw r_def y_def field_simps)
    then show ?thesis by (simp only: Math_round_def floor_divide_of_int_eq)
  qed
  have kq: "rat_of_int k = of_int \<lfloor>q + 1 / 2\<rfloor>"
  proof -
    have "q + 1 / 2 = of_int (2 * t + int n) / of_int (2 * int n)"
      using n by (simp add: q_def field_simps)
    then show ?thesis by (simp only: k_def floor_divide_of_int_eq)
  qed
  have k1: "rat_of_int k \<le> q + 1 / 2" and k2: "q + 1 / 2 < of_int k + 1"
    unfolding kq by linarith+
  have lo: "k * (2 * M) - M \<le> r"
  proof -
    have "0 \<le> 2 * rat_of_int M" using M by simp
    then have "rat_of_int k * (2 * of_int M) \<le> (q + 1 / 2) * (2 * of_int M)"
      using k1 by (rule mult_right_mono[rotated])
    then have "rat_of_int (k * (2 * M) - M) \<le> y"
      by (simp add: y_def algebra_simps)
    then show ?thesis unfolding r_def by (rule rhe_ge)
  qed
  have hi: "r < (k + 1) * (2 * M) - M"
  proof -
    define j where "j = (2 * k + 1) * int n - 2 * t"
    have "rat_of_int j = (2 * of_int k + 1) * N - 2 * (q * N)"
      using n by (simp add: j_def N_def q_def)
    also have "\<dots> = 2 * N * (of_int k + 1 - (q + 1 / 2))" by (simp add: algebra_simps)
    finally have jq: "rat_of_int j = 2 * N * (of_int k + 1 - (q + 1 / 2))" .
    have "0 < rat_of_int j" unfolding jq using k2 N by simp
    then have "0 < j" by (simp only: of_int_0_less_iff)
    then have "1 \<le> rat_of_int j" by simp
    then have "1 \<le> 2 * N * (of_int k + 1 - (q + 1 / 2))" using jq by simp
    then have "1 / (2 * N) \<le> of_int k + 1 - (q + 1 / 2)" using N by (simp add: field_simps)
    moreover have "1 / (4 * of_int M) < 1 / (2 * N)" using Nsmall N M by (simp add: field_simps)
    ultimately have "q < of_int k + 1 / 2 - 1 / (4 * of_int M)" by linarith
    moreover have "0 < 2 * rat_of_int M" using M by simp
    ultimately have "q * (2 * of_int M) < (of_int k + 1 / 2 - 1 / (4 * of_int M)) * (2 * of_int M)"
      by (rule mult_strict_right_mono)
    also have "\<dots> = of_int ((k + 1) * (2 * M) - M) - 1 / 2" using M by (simp add: field_simps)
    finally have "y < of_int ((k + 1) * (2 * M) - M) - 1 / 2" by (simp add: y_def)
    then show ?thesis unfolding r_def by (rule rhe_lt)
  qed
  have "(r + M) div (2 * M) = k"
  proof (rule int_div_pos_eq[where r = "r + M - k * (2 * M)"])
    show "r + M = (2 * M) * k + (r + M - k * (2 * M))" by (simp add: algebra_simps)
    show "0 \<le> r + M - k * (2 * M)" using lo by simp
    show "r + M - k * (2 * M) < 2 * M" using hi by (simp add: algebra_simps)
  qed
  then show ?thesis using rnd by (simp add: js_div_def q_def k_def)
qed

lemma js_add_exact: "\<bar>a + b\<bar> < 2 ^ 53 \<Longrightarrow> js_add a b = a + b"
  by (simp add: js_add_def double_of_int_exact)

lemma js_views_exact: "\<bar>views v\<bar> < 2 ^ 53 \<Longrightarrow> js_views v = views v"
  by (cases "v_viewCount v") (simp_all add: js_views_def views_def or_zero_def double_of_int_exact)

lemma abs_views_le_sum: "v \<in> set vs \<Longrightarrow> \<bar>views v\<bar> \<le> sum_list (map (\<lambda>v. \<bar>views v\<bar>) vs)"
proof (induction vs)
  case Nil
  then show ?case by simp
next
  case (Cons x xs)
  have "0 \<le> sum_list (map (\<lambda>v. \<bar>views v\<bar>) xs)" by (rule sum_list_nonneg) auto
  then show ?case using Cons by auto
qed

lemma foldl_views:
  "\<bar>a\<bar> + sum_list (map (\<lambda>v. \<bar>views v\<bar>) vs) < 2 ^ 53 \<Longrightarrow>
   foldl (\<lambda>sum v. js_add sum (js_views v)) a vs = a + sum_list (map views vs)"
proof (induction vs arbitrary: a)
  case Nil
  show ?case by simp
next
  case (Cons x xs)
  have nn: "0 \<le> sum_list (map (\<lambda>v. \<bar>views v\<bar>) xs)" by (rule sum_list_nonneg) auto
  have x: "js_views x = views x" using Cons.prems nn by (intro js_views_exact) simp
  have ax: "js_add a (views x) = a + views x" using Cons.prems nn by (intro js_add_exact) simp
  have "\<bar>a + views x\<bar> + sum_list (map (\<lambda>v. \<bar>views v\<bar>) xs) < 2 ^ 53"
    using Cons.prems by simp
  then have "foldl (\<lambda>sum v. js_add sum (js_views v)) (a + views x) xs
      = a + views x + sum_list (map views xs)"
    by (rule Cons.IH)
  then show ?case by (simp add: x ax)
qed

lemma round_div_int:
  assumes "0 < n"
  shows "\<bar>2 * ((2 * t + int n) div (2 * int n) * int n - t)\<bar> \<le> int n"
proof -
  define m where "m = int n"
  define q where "q = (2 * t + m) div (2 * m)"
  define r where "r = (2 * t + m) mod (2 * m)"
  have m: "0 < m" using assms by (simp add: m_def)
  have eq: "2 * t + m = 2 * m * q + r" by (simp add: q_def r_def)
  have r: "0 \<le> r" "r < 2 * m" using m by (simp_all add: r_def)
  have "2 * (q * m - t) = m - r" using eq by (simp add: algebra_simps)
  then have "\<bar>2 * (q * m - t)\<bar> \<le> m" using r by linarith
  then show ?thesis by (simp add: q_def m_def)
qed

lemma Math_round_nearest:
  assumes "0 < n" and "\<bar>t\<bar> < 2 ^ 52"
  shows "\<bar>real_of_int (Math_round (js_div t n)) - real_of_int t / real n\<bar> \<le> 1 / 2"
proof -
  let ?q = "(2 * t + int n) div (2 * int n)"
  define x where "x = \<bar>real_of_int ?q * real n - real_of_int t\<bar>"
  have n: "0 < real n" using assms by simp
  have "real_of_int \<bar>2 * (?q * int n - t)\<bar> \<le> real_of_int (int n)"
    using round_div_int[OF assms(1), of t] by (simp only: of_int_le_iff)
  then have "\<bar>2 * (real_of_int ?q * real n - real_of_int t)\<bar> \<le> real n"
    by simp
  then have i: "2 * x \<le> real n"
    unfolding x_def by (simp only: abs_mult abs_numeral)
  have "real_of_int ?q - real_of_int t / real n = (real_of_int ?q * real n - real_of_int t) / real n"
    using n by (simp add: field_simps)
  then have "\<bar>real_of_int ?q - real_of_int t / real n\<bar> = x / real n"
    using n by (simp add: abs_divide x_def)
  also have "\<dots> \<le> 1 / 2"
    using i n by (simp add: field_simps)
  finally show ?thesis by (simp only: Math_round_js_div[OF assms])
qed

lemma topVideo_snoc:
  "topVideo v0 (rest @ [x]) = (if js_views x > js_views (topVideo v0 rest) then x else topVideo v0 rest)"
  by (simp add: topVideo_def views_def)

lemma topVideo_first_max:
  "xs \<noteq> [] \<Longrightarrow>
   \<exists>i<length xs. topVideo (hd xs) (tl xs) = xs ! i \<and>
     (\<forall>j<length xs. js_views (xs ! j) \<le> js_views (xs ! i)) \<and>
     (\<forall>j<i. js_views (xs ! j) < js_views (xs ! i))"
proof (induction xs rule: rev_induct)
  case Nil
  then show ?case by simp
next
  case (snoc x ys)
  show ?case
  proof (cases "ys = []")
    case True
    then show ?thesis by (simp add: topVideo_def)
  next
    case False
    then obtain i where i: "i < length ys" and t: "topVideo (hd ys) (tl ys) = ys ! i"
      and mx: "\<forall>j<length ys. js_views (ys ! j) \<le> js_views (ys ! i)"
      and fst: "\<forall>j<i. js_views (ys ! j) < js_views (ys ! i)"
      using snoc.IH by blast
    have top: "topVideo (hd (ys @ [x])) (tl (ys @ [x])) =
        (if js_views x > js_views (ys ! i) then x else ys ! i)"
      using False t by (simp add: topVideo_snoc)
    show ?thesis
    proof (cases "js_views x > js_views (ys ! i)")
      case True
      have "topVideo (hd (ys @ [x])) (tl (ys @ [x])) = (ys @ [x]) ! length ys"
        using True top by simp
      moreover have "\<forall>j<length (ys @ [x]). js_views ((ys @ [x]) ! j) \<le> js_views ((ys @ [x]) ! length ys)"
        using mx True by (auto simp: nth_append less_Suc_eq)
      moreover have "\<forall>j<length ys. js_views ((ys @ [x]) ! j) < js_views ((ys @ [x]) ! length ys)"
        using mx True by (auto simp: nth_append)
      ultimately show ?thesis by (intro exI[of _ "length ys"]) simp
    next
      case False
      have "topVideo (hd (ys @ [x])) (tl (ys @ [x])) = (ys @ [x]) ! i"
        using False top i by (simp add: nth_append)
      moreover have "\<forall>j<length (ys @ [x]). js_views ((ys @ [x]) ! j) \<le> js_views ((ys @ [x]) ! i)"
        using mx False i by (auto simp: nth_append less_Suc_eq)
      moreover have "\<forall>j<i. js_views ((ys @ [x]) ! j) < js_views ((ys @ [x]) ! i)"
        using fst i by (auto simp: nth_append)
      moreover have "i < length (ys @ [x])" using i by simp
      ultimately show ?thesis by blast
    qed
  qed
qed

lemma trend_key_comp [simp]:
  "trend_key k today \<circ> set_where_id e a b c f = trend_key k today"
  by (simp add: fun_eq_iff)

lemma filter_map_keep:
  "(\<And>x. P (f x) = P x) \<Longrightarrow> length (filter P (map f xs)) = length (filter P xs)"
  by (induction xs) auto

lemma find_None_filter: "find P xs = None \<Longrightarrow> filter P xs = []"
  by (induction xs) (auto split: if_splits)

lemma find_Some_filter: "find P xs = Some x \<Longrightarrow> 1 \<le> length (filter P xs)"
  by (induction xs) (auto split: if_splits)

lemma step_count:
  "length (filter (trend_key k today) (tbl_trends (updateTrends_step today now k' d))) =
     (if kw_id k' = kw_id k \<and> todayVideos d k today \<noteq> []
      then max 1 (length (filter (trend_key k today) (tbl_trends d)))
      else length (filter (trend_key k today) (tbl_trends d)))"
proof (cases "todayVideos d k' today")
  case Nil
  then show ?thesis
    using todayVideos_same_id[of k' k d today] by (auto simp: updateTrends_step_def)
next
  case (Cons v0 rest)
  show ?thesis
  proof (cases "find (trend_key k' today) (tbl_trends d)")
    case None
    have "kw_id k' = kw_id k \<Longrightarrow> filter (trend_key k today) (tbl_trends d) = []"
      using find_None_filter[OF None] trend_key_same_id[of k' k today] by simp
    then show ?thesis
      using Cons None todayVideos_same_id[of k' k d today]
      by (auto simp: updateTrends_step_def Let_def trend_key_def)
  next
    case (Some ex)
    have "kw_id k' = kw_id k \<Longrightarrow> 1 \<le> length (filter (trend_key k today) (tbl_trends d))"
      using find_Some_filter[OF Some] trend_key_same_id[of k' k today] by simp
    then show ?thesis
      using Cons Some todayVideos_same_id[of k' k d today]
      by (auto simp: updateTrends_step_def Let_def filter_map_keep)
  qed
qed

lemma fold_count:
  "length (filter (trend_key k today) (tbl_trends (fold (updateTrends_step today now) ks d))) =
     (if (\<exists>k'\<in>set ks. kw_id k' = kw_id k) \<and> todayVideos d k today \<noteq> []
      then max 1 (length (filter (trend_key k today) (tbl_trends d)))
      else length (filter (trend_key k today) (tbl_trends d)))"
proof (induction ks arbitrary: d)
  case Nil
  show ?case by simp
next
  case (Cons k' ks)
  show ?case
    by (simp add: Cons.IH step_count) 
qed

text \<open>
  C6, as the code has it. The sum of the view counts is a sum of doubles, exact while the
  integers stay in the range where every integer is a double. For every keyword with at
  least one video collected in the current day, whose view counts have absolute values of
  a sum below \<open>2^52\<close>: after \<open>updateTrends\<close> the row found under the key (keyword, day, daily)
  has \<^verbatim>\<open>videoCount\<close> the number of these videos, \<^verbatim>\<open>totalViews\<close> the sum of their view
  counts, \<^verbatim>\<open>avgViews\<close> an integer nearest to the quotient of the two, and \<^verbatim>\<open>topVideoId\<close>
  the first video among those of maximal view count. Running it again on the result
  changes nothing, and no second row is made for the key.
\<close>

theorem daily_aggregate:
  assumes "trends_keyed d" and "keyword \<in> set (tbl_keywords d)"
    and "todayVideos d keyword today \<noteq> []"
    and "sum_list (map (\<lambda>v. \<bar>views v\<bar>) (todayVideos d keyword today)) < 2 ^ 52"
  shows "let vs = todayVideos d keyword today; d' = updateTrends today now d in
    (\<exists>row a i.
       find (trend_key keyword today) (tbl_trends d') = Some row \<and>
       t_videoCount row = Some (int (length vs)) \<and>
       t_totalViews row = Some (sum_list (map views vs)) \<and>
       t_avgViews row = Some a \<and>
       \<bar>real_of_int a - real_of_int (sum_list (map views vs)) / real (length vs)\<bar> \<le> 1 / 2 \<and>
       i < length vs \<and> t_topVideoId row = Some (v_id (vs ! i)) \<and>
       (\<forall>j<length vs. views (vs ! j) \<le> views (vs ! i)) \<and>
       (\<forall>j<i. views (vs ! j) < views (vs ! i))) \<and>
    updateTrends today now' d' = d' \<and>
    length (filter (trend_key keyword today) (tbl_trends d'))
      = max 1 (length (filter (trend_key keyword today) (tbl_trends d)))"
proof -
  let ?vs = "todayVideos d keyword today"
  let ?d' = "updateTrends today now d"
  let ?S = "sum_list (map views ?vs)"
  have "agg_ok today keyword ?d'"
    unfolding updateTrends_def using assms(1,2) fold_establishes by blast
  moreover have "todayVideos ?d' keyword today = ?vs"
    by (simp add: updateTrends_def todayVideos_def)
  ultimately obtain row where row: "find (trend_key keyword today) (tbl_trends ?d') = Some row"
    and st: "stored ?vs row"
    using assms(3) by (auto simp: agg_ok_def split: option.splits)
  have len: "0 < length ?vs" using assms(3) by simp
  have ex: "js_views (?vs ! j) = views (?vs ! j)" if "j < length ?vs" for j
  proof -
    have "\<bar>views (?vs ! j)\<bar> \<le> sum_list (map (\<lambda>v. \<bar>views v\<bar>) ?vs)"
      using that by (intro abs_views_le_sum) simp
    then have "\<bar>views (?vs ! j)\<bar> < 2 ^ 53" using assms(4) by simp
    then show ?thesis by (rule js_views_exact)
  qed
  have "\<bar>?S\<bar> \<le> sum_list (map abs (map views ?vs))" by (rule sum_list_abs)
  then have S: "\<bar>?S\<bar> < 2 ^ 52" using assms(4) by (simp add: comp_def)
  have tot: "foldl (\<lambda>sum v. js_add sum (js_views v)) 0 ?vs = ?S"
    using foldl_views[of 0 ?vs] assms(4) by simp
  obtain i where i: "i < length ?vs" "topVideo (hd ?vs) (tl ?vs) = ?vs ! i"
    "\<forall>j<length ?vs. js_views (?vs ! j) \<le> js_views (?vs ! i)"
    "\<forall>j<i. js_views (?vs ! j) < js_views (?vs ! i)"
    using topVideo_first_max[OF assms(3)] by blast
  have mx: "\<forall>j<length ?vs. views (?vs ! j) \<le> views (?vs ! i)"
    using i(1,3) ex by auto
  have fs: "\<forall>j<i. views (?vs ! j) < views (?vs ! i)"
    using i(1,4) ex by auto
  have 1: "t_videoCount row = Some (int (length ?vs))" using st by (simp add: stored_def)
  have 2: "t_totalViews row = Some ?S"
    using st by (simp add: stored_def tot)
  have 3: "t_avgViews row = Some (Math_round (js_div ?S (length ?vs)))"
    using st by (simp add: stored_def tot)
  have 4: "t_topVideoId row = Some (v_id (?vs ! i))" using st i(2) by (simp add: stored_def)
  have A: "\<exists>row a i.
       find (trend_key keyword today) (tbl_trends ?d') = Some row \<and>
       t_videoCount row = Some (int (length ?vs)) \<and>
       t_totalViews row = Some ?S \<and>
       t_avgViews row = Some a \<and>
       \<bar>real_of_int a - real_of_int ?S / real (length ?vs)\<bar> \<le> 1 / 2 \<and>
       i < length ?vs \<and> t_topVideoId row = Some (v_id (?vs ! i)) \<and>
       (\<forall>j<length ?vs. views (?vs ! j) \<le> views (?vs ! i)) \<and>
       (\<forall>j<i. views (?vs ! j) < views (?vs ! i))"
    using row 1 2 3 4 i(1) mx fs Math_round_nearest[OF len S]
    by blast
  have B: "updateTrends today now' ?d' = ?d'"
    using assms(1) by (rule updateTrends_idempotent)
  have C: "length (filter (trend_key keyword today) (tbl_trends ?d'))
      = max 1 (length (filter (trend_key keyword today) (tbl_trends d)))"
    unfolding updateTrends_def using assms(2,3) by (auto simp: fold_count)
  show ?thesis using A B C by (simp add: Let_def)
qed

theorem daily_aggregate_witness:
  "trends_keyed db_of_day \<and> kw 1 ''ok'' True \<in> set (tbl_keywords db_of_day) \<and>
   todayVideos db_of_day (kw 1 ''ok'' True) 86400000
     = [video_row 1 1 100 86400500, video_row 2 1 300 86400600, video_row 3 1 50 86400700] \<and>
   sum_list (map (\<lambda>v. \<bar>views v\<bar>) (todayVideos db_of_day (kw 1 ''ok'' True) 86400000)) < 2 ^ 52 \<and>
   tbl_trends (updateTrends 86400000 86409999 db_of_day)
     = [\<lparr>t_id = 1, t_keywordId = Some 1, t_date = 86400000, t_period = ''daily'',
         t_videoCount = Some 3, t_totalViews = Some 450, t_avgViews = Some 150,
         t_topVideoId = Some 2, t_createdAt = Some 86409999\<rparr>] \<and>
   updateTrends 86400000 86410000 (updateTrends 86400000 86409999 db_of_day)
     = updateTrends 86400000 86409999 db_of_day"
proof -
  have h1: "trends_keyed db_of_day" by (simp add: trends_keyed_def db_of_day_def)
  have h2: "kw 1 ''ok'' True \<in> set (tbl_keywords db_of_day)" by (simp add: db_of_day_def)
  have vs: "todayVideos db_of_day (kw 1 ''ok'' True) 86400000
     = [video_row 1 1 100 86400500, video_row 2 1 300 86400600, video_row 3 1 50 86400700]"
    by (simp add: todayVideos_def db_of_day_def video_row_def kw_def)
  then have h3: "todayVideos db_of_day (kw 1 ''ok'' True) 86400000 \<noteq> []" by simp
  have h4: "sum_list (map (\<lambda>v. \<bar>views v\<bar>) (todayVideos db_of_day (kw 1 ''ok'' True) 86400000)) < 2 ^ 52"
    unfolding vs by (simp add: views_def video_row_def or_zero_def)
  have idem: "updateTrends 86400000 86410000 (updateTrends 86400000 86409999 db_of_day)
     = updateTrends 86400000 86409999 db_of_day"
    using daily_aggregate[OF h1 h2 h3 h4, of 86409999 86410000] by (simp add: Let_def)
  have tr: "tbl_trends (updateTrends 86400000 86409999 db_of_day)
     = [\<lparr>t_id = 1, t_keywordId = Some 1, t_date = 86400000, t_period = ''daily'',
         t_videoCount = Some 3, t_totalViews = Some 450, t_avgViews = Some 150,
         t_topVideoId = Some 2, t_createdAt = Some 86409999\<rparr>]"
    using vs
    by (simp add: updateTrends_def updateTrends_step_def Let_def db_of_day_def kw_def
        video_row_def or_zero_def js_views_def js_add_def double_of_int_exact Math_round_js_div
        topVideo_def)
  show ?thesis using h1 h2 vs h4 idem tr by blast
qed

text \<open>
  C6 as stated fails where the sum leaves that range: of two videos of the day with
  9007199254740992 and 1 views, the sum is 9007199254740993, which is no double; the row
  holds 9007199254740992 as \<^verbatim>\<open>totalViews\<close>, and 4503599627370496 as \<^verbatim>\<open>avgViews\<close> where the
  quotient of the sum and the count rounds to 4503599627370497.
\<close>

theorem daily_aggregate_counterexample:
  "trends_keyed db_of_large \<and> kw 1 ''ok'' True \<in> set (tbl_keywords db_of_large) \<and>
   todayVideos db_of_large (kw 1 ''ok'' True) 86400000
     = [video_row 1 1 9007199254740992 86400500, video_row 2 1 1 86400600] \<and>
   sum_list (map views (todayVideos db_of_large (kw 1 ''ok'' True) 86400000)) = 9007199254740993 \<and>
   tbl_trends (updateTrends 86400000 86409999 db_of_large)
     = [\<lparr>t_id = 1, t_keywordId = Some 1, t_date = 86400000, t_period = ''daily'',
         t_videoCount = Some 2, t_totalViews = Some 9007199254740992,
         t_avgViews = Some 4503599627370496,
         t_topVideoId = Some 1, t_createdAt = Some 86409999\<rparr>]"
proof -
  have h1: "trends_keyed db_of_large" by (simp add: trends_keyed_def db_of_large_def)
  have h2: "kw 1 ''ok'' True \<in> set (tbl_keywords db_of_large)" by (simp add: db_of_large_def)
  have vs: "todayVideos db_of_large (kw 1 ''ok'' True) 86400000
     = [video_row 1 1 9007199254740992 86400500, video_row 2 1 1 86400600]"
    by (simp add: todayVideos_def db_of_large_def video_row_def kw_def)
  have s: "sum_list (map views (todayVideos db_of_large (kw 1 ''ok'' True) 86400000)) = 9007199254740993"
    unfolding vs by (simp add: views_def video_row_def or_zero_def)
  have n1: "double_of_int 9007199254740992 = 9007199254740992" by code_simp
  have n2: "double_of_int 1 = 1" by code_simp
  have n3: "double_of_int 9007199254740993 = 9007199254740992" by code_simp
  have n4: "Math_round (js_div 9007199254740992 (Suc (Suc 0))) = 4503599627370496" by code_simp
  have tr: "tbl_trends (updateTrends 86400000 86409999 db_of_large)
     = [\<lparr>t_id = 1, t_keywordId = Some 1, t_date = 86400000, t_period = ''daily'',
         t_videoCount = Some 2, t_totalViews = Some 9007199254740992,
         t_avgViews = Some 4503599627370496,
         t_topVideoId = Some 1, t_createdAt = Some 86409999\<rparr>]"
    using vs
    by (simp add: updateTrends_def updateTrends_step_def Let_def db_of_large_def kw_def
        video_row_def or_zero_def js_views_def js_add_def n1 n2 n3 n4 topVideo_def)
  show ?thesis using h1 h2 vs s tr by blast
qed

end
